theory Spec2Isabelle
  imports Main
begin

section \<open>DynamicProcessPool: the data model\<close>

text \<open>
  The repository holds the same pool twice: \<^verbatim>\<open>DynamicProcessPool.h\<close> (handler
  \<^verbatim>\<open>bool(T)\<close>, nothing handed back) and \<^verbatim>\<open>tmp.h\<close> (handler \<^verbatim>\<open>_OUT(_IN)\<close>, a
  \<^verbatim>\<open>std::promise\<close> per item). Constructor, \<^verbatim>\<open>enqueue\<close>, \<^verbatim>\<open>queryPoolStatus\<close>, \<^verbatim>\<open>kill\<close>,
  \<^verbatim>\<open>workthread\<close>, \<^verbatim>\<open>addWorker\<close> and \<^verbatim>\<open>postQuitWorkers\<close> agree line by line; the
  files differ in four statements only, collected in the record \<open>variant\<close> below.

  The pool is a concurrent program. It is embedded as an interleaving machine: a state
  holds the members of the class and, for every thread, its program counter and locals;
  one step is one access to shared memory (an atomic load or read-modify-write, a mutex
  operation, a condition-variable operation) together with the thread-local code up to
  the next such access. The \<^verbatim>\<open>std::atomic<int>\<close> counters and \<^verbatim>\<open>int lifeCount\<close> are
  \<open>int\<close>: they move by one per step and stay within the number of threads.
\<close>

datatype pc =
    Direct      \<comment> \<open>lambda of addWorkerWithWork: \<^verbatim>\<open>handler( workItem )\<close>\<close>
  | Start       \<comment> \<open>\<^verbatim>\<open>nWorker.fetch_add( 1 )\<close>\<close>
  | LoopTest    \<comment> \<open>\<^verbatim>\<open>while( !quit && lifeCount > 0 )\<close>\<close>
  | Acquire     \<comment> \<open>\<^verbatim>\<open>std::unique_lock<std::mutex> guard( queueMutex )\<close>\<close>
  | TestEmpty   \<comment> \<open>first \<^verbatim>\<open>if( qWork.empty() )\<close>\<close>
  | WaitInc     \<comment> \<open>\<^verbatim>\<open>nWaiting.fetch_add(1)\<close>\<close>
  | Wait        \<comment> \<open>\<^verbatim>\<open>signal.wait( guard )\<close>: release the mutex and block\<close>
  | Blocked     \<comment> \<open>inside \<^verbatim>\<open>signal.wait\<close>, not notified\<close>
  | Woken       \<comment> \<open>inside \<^verbatim>\<open>signal.wait\<close>, notified: take the mutex again\<close>
  | WaitDec     \<comment> \<open>\<^verbatim>\<open>nWaiting.fetch_sub(1)\<close>\<close>
  | Recheck     \<comment> \<open>second \<^verbatim>\<open>if( qWork.empty() ) continue;\<close>\<close>
  | Take        \<comment> \<open>\<^verbatim>\<open>workItem = qWork.front(); qWork.pop();\<close> and the unlock\<close>
  | WorkInc     \<comment> \<open>\<^verbatim>\<open>nWorking.fetch_add(1)\<close>\<close>
  | Call        \<comment> \<open>\<^verbatim>\<open>result = handler( workItem )\<close>, in tmp.h \<^verbatim>\<open>doWork( workPair )\<close>\<close>
  | WorkDec     \<comment> \<open>\<^verbatim>\<open>nWorking.fetch_sub(1)\<close>\<close>
  | LifeDec     \<comment> \<open>\<^verbatim>\<open>lifeCount --\<close>\<close>
  | Retire      \<comment> \<open>\<^verbatim>\<open>nWorker.fetch_sub( 1 )\<close>\<close>
  | Done        \<comment> \<open>the thread function has returned\<close>

text \<open>
  A thread of the pool. \<open>budget\<close> is the \<^verbatim>\<open>lifeCount\<close> argument bound when the thread
  was created, \<open>lifeCount\<close> the running parameter of \<^verbatim>\<open>workthread\<close>, \<open>captured\<close> the work
  item copied into the lambda of \<^verbatim>\<open>addWorkerWithWork\<close> (\<open>None\<close> for a thread of
  \<^verbatim>\<open>addWorker\<close>), \<open>workItem\<close> the local of the loop body.
\<close>

record 'w worker =
  pc :: pc
  budget :: int
  lifeCount :: int
  captured :: "'w option"
  workItem :: "'w option"

text \<open>What an observer of a run sees; the list of these is the history of the run.\<close>

datatype 'w event =
    Pushed 'w             \<comment> \<open>\<^verbatim>\<open>qWork.push\<close> in enqueue\<close>
  | Popped nat 'w         \<comment> \<open>\<^verbatim>\<open>qWork.pop\<close> by a thread\<close>
  | Invoked nat 'w        \<comment> \<open>handler invocation inside the loop of workthread\<close>
  | DirectInvoked nat 'w  \<comment> \<open>handler invocation in the lambda of addWorkerWithWork\<close>
  | KillReturned          \<comment> \<open>\<^verbatim>\<open>kill()\<close> returned to its caller\<close>

text \<open>The caller of the public interface, one call at a time.\<close>

datatype 'w caller =
    Idle
  | EnqWorker 'w    \<comment> \<open>\<^verbatim>\<open>maxWorker < nWorker.load()\<close>\<close>
  | EnqWaiting 'w   \<comment> \<open>\<^verbatim>\<open>nWaiting.load() == 0\<close>\<close>
  | EnqSpawn 'w     \<comment> \<open>\<^verbatim>\<open>addWorkerWithWork( 10, workItem )\<close>\<close>
  | EnqPush 'w      \<comment> \<open>lock, \<^verbatim>\<open>qWork.push( workItem )\<close>, unlock\<close>
  | EnqNotify 'w    \<comment> \<open>\<^verbatim>\<open>if( nWaiting.load() > 0 ) signal.notify_one()\<close>\<close>
  | EnqReturn 'w    \<comment> \<open>return (tmp.h: \<^verbatim>\<open>workPair.result->get_future()\<close>)\<close>
  | KillQuit        \<comment> \<open>postQuitWorkers: \<^verbatim>\<open>quit = true\<close>\<close>
  | KillNotify      \<comment> \<open>postQuitWorkers: \<^verbatim>\<open>signal.notify_all()\<close>\<close>
  | KillDetach      \<comment> \<open>detach every worker, \<^verbatim>\<open>workers.clear()\<close>\<close>
  | KillSpin        \<comment> \<open>\<^verbatim>\<open>while( nWorker.load() > 0 )\<close>\<close>

text \<open>
  The members of the class, then the threads, the caller, the memory the handler call
  statement writes (\<open>ext\<close>: the \<^verbatim>\<open>result\<close> locals, or the promises) and the history.
  \<open>workers\<close> is the vector of thread handles (indices into \<open>threads\<close>); \<open>queueMutex\<close> is
  the thread that holds the mutex.
\<close>

record ('w, 'x) pool =
  nWorker :: int
  nWaiting :: int
  nWorking :: int
  workers :: "nat list"
  qWork :: "'w list"
  queueMutex :: "nat option"
  lifeTime :: int
  maxWorker :: int
  quit :: bool
  threads :: "'w worker list"
  caller :: "'w caller"
  ext :: 'x
  history :: "'w event list"

text \<open>
  The statements in which the two headers differ. \<open>wrap\<close>: what enqueue makes of the
  submitted item before the test; \<open>call\<close>: the statement between the two updates of
  \<^verbatim>\<open>nWorking\<close>; \<open>direct\<close>: the first statement of the lambda; \<open>finish\<close>: the return of
  enqueue. \<open>None\<close> is a fault of the C++ program (an exception nobody catches or a use
  of a deleted object).
\<close>

record ('a, 'w, 'x) variant =
  wrap :: "'a \<Rightarrow> 'x \<Rightarrow> 'w \<times> 'x"
  call :: "nat \<Rightarrow> 'w \<Rightarrow> 'x \<Rightarrow> 'x option"
  direct :: "nat \<Rightarrow> 'w \<Rightarrow> 'x \<Rightarrow> 'x option"
  finish :: "'w \<Rightarrow> 'x \<Rightarrow> 'x option"

section \<open>The operations\<close>

definition upd :: "nat \<Rightarrow> ('w worker \<Rightarrow> 'w worker) \<Rightarrow> ('w, 'x) pool \<Rightarrow> ('w, 'x) pool" where
  "upd t f s = s\<lparr>threads := (threads s)[t := f (threads s ! t)]\<rparr>"

definition goto :: "nat \<Rightarrow> pc \<Rightarrow> ('w, 'x) pool \<Rightarrow> ('w, 'x) pool" where
  "goto t p s = upd t (\<lambda>w. w\<lparr>pc := p\<rparr>) s"

definition observe :: "'w event \<Rightarrow> ('w, 'x) pool \<Rightarrow> ('w, 'x) pool" where
  "observe e s = s\<lparr>history := history s @ [e]\<rparr>"

text \<open>\<^verbatim>\<open>addWorker(lifeCount)\<close>: a new thread running \<^verbatim>\<open>workthread(lifeCount)\<close>.\<close>

definition addWorker :: "int \<Rightarrow> ('w, 'x) pool \<Rightarrow> ('w, 'x) pool" where
  "addWorker n s =
     s\<lparr>workers := workers s @ [length (threads s)],
       threads := threads s @
         [\<lparr>pc = Start, budget = n, lifeCount = n, captured = None, workItem = None\<rparr>]\<rparr>"

text \<open>
  \<^verbatim>\<open>addWorkerWithWork(lifeCount, workItem)\<close>: a new thread running the lambda, which
  calls the handler on the captured item and then \<^verbatim>\<open>workthread(lifeCount)\<close>.
\<close>

definition addWorkerWithWork :: "int \<Rightarrow> 'w \<Rightarrow> ('w, 'x) pool \<Rightarrow> ('w, 'x) pool" where
  "addWorkerWithWork n w s =
     s\<lparr>workers := workers s @ [length (threads s)],
       threads := threads s @
         [\<lparr>pc = Direct, budget = n, lifeCount = n, captured = Some w, workItem = None\<rparr>]\<rparr>"

text \<open>
  The constructor: the member initialisers, then \<^verbatim>\<open>_initialWorkers\<close> calls of
  \<^verbatim>\<open>addWorker( _lifeTime )\<close> (none when the argument is not positive). \<open>x\<close> is the
  initial content of \<open>ext\<close>.
\<close>

definition DynamicProcessPool :: "int \<Rightarrow> int \<Rightarrow> int \<Rightarrow> 'x \<Rightarrow> ('w, 'x) pool" where
  "DynamicProcessPool initialWorkers maxW lifeT x =
     fold (\<lambda>i. addWorker lifeT) [0 ..< nat initialWorkers]
       \<lparr>nWorker = 0, nWaiting = 0, nWorking = 0, workers = [], qWork = [],
        queueMutex = None, lifeTime = lifeT, maxWorker = maxW, quit = False,
        threads = [], caller = Idle, ext = x, history = []\<rparr>"

text \<open>
  One step of thread \<open>t\<close>: the lambda of \<^verbatim>\<open>addWorkerWithWork\<close> (\<open>Direct\<close>) and
  \<^verbatim>\<open>workthread\<close>. \<open>None\<close>: the thread cannot move (it waits for the mutex or for a
  notification, or it has returned), or the program faults.
\<close>

definition workthread :: "('a, 'w, 'x) variant \<Rightarrow> nat \<Rightarrow> ('w, 'x) pool \<Rightarrow> ('w, 'x) pool option" where
  "workthread V t s =
    (let w = threads s ! t in
     case pc w of
       Direct \<Rightarrow>
         (case captured w of
            None \<Rightarrow> None
          | Some x \<Rightarrow>
              (case direct V t x (ext s) of
                 None \<Rightarrow> None
               | Some e \<Rightarrow> Some (goto t Start (observe (DirectInvoked t x) (s\<lparr>ext := e\<rparr>)))))
     | Start \<Rightarrow> Some (goto t LoopTest (s\<lparr>nWorker := nWorker s + 1\<rparr>))
     | LoopTest \<Rightarrow>
         Some (if \<not> quit s \<and> lifeCount w > 0
               then upd t (\<lambda>w. w\<lparr>pc := Acquire, workItem := None\<rparr>) s
               else goto t Retire s)
     | Acquire \<Rightarrow>
         (if queueMutex s = None then Some (goto t TestEmpty (s\<lparr>queueMutex := Some t\<rparr>))
          else None)
     | TestEmpty \<Rightarrow> Some (goto t (if qWork s = [] then WaitInc else Take) s)
     | WaitInc \<Rightarrow> Some (goto t Wait (s\<lparr>nWaiting := nWaiting s + 1\<rparr>))
     | Wait \<Rightarrow> Some (goto t Blocked (s\<lparr>queueMutex := None\<rparr>))
     | Blocked \<Rightarrow> None
     | Woken \<Rightarrow>
         (if queueMutex s = None then Some (goto t WaitDec (s\<lparr>queueMutex := Some t\<rparr>))
          else None)
     | WaitDec \<Rightarrow> Some (goto t Recheck (s\<lparr>nWaiting := nWaiting s - 1\<rparr>))
     | Recheck \<Rightarrow>
         Some (if qWork s = [] then goto t LoopTest (s\<lparr>queueMutex := None\<rparr>)
               else goto t Take s)
     | Take \<Rightarrow>
         (case qWork s of
            [] \<Rightarrow> None
          | x # q \<Rightarrow>
              Some (upd t (\<lambda>w. w\<lparr>pc := WorkInc, workItem := Some x\<rparr>)
                     (observe (Popped t x) (s\<lparr>qWork := q, queueMutex := None\<rparr>))))
     | WorkInc \<Rightarrow> Some (goto t Call (s\<lparr>nWorking := nWorking s + 1\<rparr>))
     | Call \<Rightarrow>
         (case workItem w of
            None \<Rightarrow> None
          | Some x \<Rightarrow>
              (case call V t x (ext s) of
                 None \<Rightarrow> None
               | Some e \<Rightarrow> Some (goto t WorkDec (observe (Invoked t x) (s\<lparr>ext := e\<rparr>)))))
     | WorkDec \<Rightarrow> Some (goto t LifeDec (s\<lparr>nWorking := nWorking s - 1\<rparr>))
     | LifeDec \<Rightarrow> Some (upd t (\<lambda>w. w\<lparr>pc := LoopTest, lifeCount := lifeCount w - 1\<rparr>) s)
     | Retire \<Rightarrow> Some (goto t Done (s\<lparr>nWorker := nWorker s - 1\<rparr>))
     | Done \<Rightarrow> None)"

text \<open>
  \<^verbatim>\<open>signal.notify_one()\<close> wakes one thread blocked in \<^verbatim>\<open>signal.wait\<close>, when there is
  one; which one is up to the scheduler (\<open>k\<close>). \<^verbatim>\<open>signal.notify_all()\<close> wakes them all.
\<close>

definition blocked :: "('w, 'x) pool \<Rightarrow> nat \<Rightarrow> bool" where
  "blocked s k = (k < length (threads s) \<and> pc (threads s ! k) = Blocked)"

definition notify_one :: "nat \<Rightarrow> ('w, 'x) pool \<Rightarrow> ('w, 'x) pool option" where
  "notify_one k s =
     (if blocked s k then Some (goto k Woken s)
      else if list_ex (\<lambda>w. pc w = Blocked) (threads s) then None
      else Some s)"

definition notify_all :: "('w, 'x) pool \<Rightarrow> ('w, 'x) pool" where
  "notify_all s =
     s\<lparr>threads := map (\<lambda>w. if pc w = Blocked then w\<lparr>pc := Woken\<rparr> else w) (threads s)\<rparr>"

text \<open>
  One step of the caller inside \<^verbatim>\<open>enqueue\<close> or \<^verbatim>\<open>kill\<close>. The \<^verbatim>\<open>&&\<close> of enqueue
  loads \<^verbatim>\<open>nWaiting\<close> only when \<^verbatim>\<open>maxWorker < nWorker.load()\<close> held. The spin loop of
  kill stays where it is while \<^verbatim>\<open>nWorker.load() > 0\<close> (the spin count and the sleep are
  timing only).
\<close>

definition caller_step :: "('a, 'w, 'x) variant \<Rightarrow> nat \<Rightarrow> ('w, 'x) pool \<Rightarrow> ('w, 'x) pool option" where
  "caller_step V k s =
    (case caller s of
       Idle \<Rightarrow> None
     | EnqWorker w \<Rightarrow>
         Some (s\<lparr>caller := (if maxWorker s < nWorker s then EnqWaiting w else EnqPush w)\<rparr>)
     | EnqWaiting w \<Rightarrow>
         Some (s\<lparr>caller := (if nWaiting s = 0 then EnqSpawn w else EnqPush w)\<rparr>)
     | EnqSpawn w \<Rightarrow> Some ((addWorkerWithWork 10 w s)\<lparr>caller := EnqReturn w\<rparr>)
     | EnqPush w \<Rightarrow>
         (if queueMutex s = None
          then Some (observe (Pushed w) (s\<lparr>qWork := qWork s @ [w], caller := EnqNotify w\<rparr>))
          else None)
     | EnqNotify w \<Rightarrow>
         (if nWaiting s > 0
          then map_option (\<lambda>s'. s'\<lparr>caller := EnqReturn w\<rparr>) (notify_one k s)
          else Some (s\<lparr>caller := EnqReturn w\<rparr>))
     | EnqReturn w \<Rightarrow>
         (case finish V w (ext s) of
            None \<Rightarrow> None
          | Some e \<Rightarrow> Some (s\<lparr>ext := e, caller := Idle\<rparr>))
     | KillQuit \<Rightarrow> Some (s\<lparr>quit := True, caller := KillNotify\<rparr>)
     | KillNotify \<Rightarrow> Some ((notify_all s)\<lparr>caller := KillDetach\<rparr>)
     | KillDetach \<Rightarrow> Some (s\<lparr>workers := [], caller := KillSpin\<rparr>)
     | KillSpin \<Rightarrow>
         Some (if nWorker s > 0 then s else observe KillReturned (s\<lparr>caller := Idle\<rparr>)))"

text \<open>
  What the scheduler can do next: let the caller enter \<^verbatim>\<open>enqueue(x)\<close> or \<^verbatim>\<open>kill()\<close>
  (the destructor is a call of kill), let the caller or a thread take its next step,
  or wake a blocked thread without a notification (\<^verbatim>\<open>signal.wait\<close> has no predicate,
  and a condition variable may wake spuriously).
\<close>

datatype 'a action = Enqueue 'a | Kill | Caller nat | Thread nat | Spurious nat

definition step :: "('a, 'w, 'x) variant \<Rightarrow> 'a action \<Rightarrow> ('w, 'x) pool \<Rightarrow> ('w, 'x) pool option" where
  "step V a s =
    (case a of
       Enqueue x \<Rightarrow>
         (if caller s = Idle
          then (case wrap V x (ext s) of (w, e) \<Rightarrow> Some (s\<lparr>ext := e, caller := EnqWorker w\<rparr>))
          else None)
     | Kill \<Rightarrow> (if caller s = Idle then Some (s\<lparr>caller := KillQuit\<rparr>) else None)
     | Caller k \<Rightarrow> caller_step V k s
     | Thread t \<Rightarrow> (if t < length (threads s) then workthread V t s else None)
     | Spurious t \<Rightarrow> (if blocked s t then Some (goto t Woken s) else None))"

fun exec :: "('a, 'w, 'x) variant \<Rightarrow> 'a action list \<Rightarrow> ('w, 'x) pool \<Rightarrow> ('w, 'x) pool option" where
  "exec V [] s = Some s"
| "exec V (a # as) s = (case step V a s of None \<Rightarrow> None | Some s' \<Rightarrow> exec V as s')"

subsection \<open>The two headers\<close>

text \<open>
  \<^verbatim>\<open>DynamicProcessPool.h\<close>: the item is queued as it is; both handler calls assign the
  returned \<^verbatim>\<open>bool\<close> to a local \<^verbatim>\<open>result\<close> of the calling thread; enqueue returns
  nothing.
\<close>

datatype var = LambdaResult nat | LoopResult nat

definition fire_and_forget :: "('a \<Rightarrow> bool) \<Rightarrow> ('a, 'a, var \<rightharpoonup> bool) variant" where
  "fire_and_forget handler =
     \<lparr>wrap = (\<lambda>workItem m. (workItem, m)),
      call = (\<lambda>t workItem m. Some (m(LoopResult t \<mapsto> handler workItem))),
      direct = (\<lambda>t workItem m. Some (m(LambdaResult t \<mapsto> handler workItem))),
      finish = (\<lambda>workItem m. Some m)\<rparr>"

text \<open>
  \<^verbatim>\<open>tmp.h\<close>: \<^verbatim>\<open>workPair_t\<close> pairs the item with a pointer to a promise made by
  \<^verbatim>\<open>new\<close>. A promise is a cell of the heap: its shared state (the value a future
  reads, once set) and whether the promise object has been deleted.
\<close>

record 'r promise =
  shared :: "'r option"
  deleted :: bool

record 'a workPair_t =
  result :: nat
  item :: 'a

text \<open>
  \<^verbatim>\<open>doWork\<close>: \<^verbatim>\<open>workPair.result->set_value( handler( workPair.item ) ); delete
  workPair.result;\<close>. \<^verbatim>\<open>set_value\<close> on a promise that already holds a value throws.
\<close>

definition doWork :: "('a \<Rightarrow> 'r) \<Rightarrow> 'a workPair_t \<Rightarrow> 'r promise list \<Rightarrow> 'r promise list option" where
  "doWork handler workPair heap =
     (let p = result workPair in
      if p < length heap \<and> \<not> deleted (heap ! p) \<and> shared (heap ! p) = None
      then Some (heap[p := \<lparr>shared = Some (handler (item workPair)), deleted = True\<rparr>])
      else None)"

definition get_future :: "'a workPair_t \<Rightarrow> 'r promise list \<Rightarrow> 'r promise list option" where
  "get_future workPair heap =
     (let p = result workPair in
      if p < length heap \<and> \<not> deleted (heap ! p) then Some heap else None)"

definition with_future :: "('a \<Rightarrow> 'r) \<Rightarrow> ('a, 'a workPair_t, 'r promise list) variant" where
  "with_future handler =
     \<lparr>wrap = (\<lambda>workItem heap.
        (\<lparr>result = length heap, item = workItem\<rparr>, heap @ [\<lparr>shared = None, deleted = False\<rparr>])),
      call = (\<lambda>t workPair heap. doWork handler workPair heap),
      direct = (\<lambda>t workPair heap. Some heap),
      finish = get_future\<rparr>"

subsection \<open>queryPoolStatus\<close>

text \<open>
  \<^verbatim>\<open>int *\<close> arguments are addresses of the caller's memory (\<open>None\<close> is \<^verbatim>\<open>nullptr\<close>);
  the function is the same in both headers.
\<close>

definition queryPoolStatus ::
  "nat option \<Rightarrow> nat option \<Rightarrow> ('w, 'x) pool \<times> (nat \<Rightarrow> int) \<Rightarrow> ('w, 'x) pool \<times> (nat \<Rightarrow> int)" where
  "queryPoolStatus waiting working = (\<lambda>(s, mem).
     let mem1 = (case waiting of None \<Rightarrow> mem | Some a \<Rightarrow> mem(a := nWaiting s));
         mem2 = (case working of None \<Rightarrow> mem1 | Some b \<Rightarrow> mem1(b := nWorking s))
     in (s, mem2))"

section \<open>Observations on states and histories\<close>

text \<open>How many elements of a list satisfy a predicate.\<close>

fun tally :: "('b \<Rightarrow> bool) \<Rightarrow> 'b list \<Rightarrow> int" where
  "tally P [] = 0"
| "tally P (x # xs) = (if P x then 1 else 0) + tally P xs"

text \<open>
  Where a thread stands with respect to the three counters: between its
  \<^verbatim>\<open>nWorker.fetch_add\<close> and its \<^verbatim>\<open>nWorker.fetch_sub\<close>, between the two updates of
  \<^verbatim>\<open>nWaiting\<close>, between the two updates of \<^verbatim>\<open>nWorking\<close>.
\<close>

definition counted :: "'w worker \<Rightarrow> bool" where
  "counted w = (pc w \<noteq> Direct \<and> pc w \<noteq> Start \<and> pc w \<noteq> Done)"

definition waiting_now :: "'w worker \<Rightarrow> bool" where
  "waiting_now w = (pc w = Wait \<or> pc w = Blocked \<or> pc w = Woken \<or> pc w = WaitDec)"

definition working_now :: "'w worker \<Rightarrow> bool" where
  "working_now w = (pc w = Call \<or> pc w = WorkDec)"

definition counters_ok :: "('w, 'x) pool \<Rightarrow> bool" where
  "counters_ok s =
     (nWorker s = tally counted (threads s) \<and>
      nWaiting s = tally waiting_now (threads s) \<and>
      nWorking s = tally working_now (threads s))"

text \<open>
  Handler invocations of thread \<open>t\<close> in a history: those of the loop of
  \<^verbatim>\<open>workthread\<close> and the one of the lambda of \<^verbatim>\<open>addWorkerWithWork\<close>.
\<close>

definition loop_call_by :: "nat \<Rightarrow> 'w event \<Rightarrow> bool" where
  "loop_call_by t e = (case e of Invoked u x \<Rightarrow> u = t | _ \<Rightarrow> False)"

definition direct_call_by :: "nat \<Rightarrow> 'w event \<Rightarrow> bool" where
  "direct_call_by t e = (case e of DirectInvoked u x \<Rightarrow> u = t | _ \<Rightarrow> False)"

definition loop_calls :: "nat \<Rightarrow> ('w, 'x) pool \<Rightarrow> int" where
  "loop_calls t s = tally (loop_call_by t) (history s)"

definition direct_calls :: "nat \<Rightarrow> ('w, 'x) pool \<Rightarrow> int" where
  "direct_calls t s = tally (direct_call_by t) (history s)"

text \<open>The events of thread \<open>t\<close>.\<close>

definition by_thread :: "nat \<Rightarrow> 'w event \<Rightarrow> bool" where
  "by_thread t e =
     (case e of Popped u x \<Rightarrow> u = t | Invoked u x \<Rightarrow> u = t | DirectInvoked u x \<Rightarrow> u = t
      | _ \<Rightarrow> False)"

text \<open>
  \<open>in_body\<close>: inside the body of the loop of \<^verbatim>\<open>workthread\<close>. \<open>served\<close>: the handler has
  been called in this round and \<^verbatim>\<open>lifeCount --\<close> is still to come.
\<close>

definition in_body :: "pc \<Rightarrow> bool" where
  "in_body p = (p \<noteq> Direct \<and> p \<noteq> Start \<and> p \<noteq> LoopTest \<and> p \<noteq> Retire \<and> p \<noteq> Done)"

definition served :: "pc \<Rightarrow> bool" where
  "served p = (p = WorkDec \<or> p = LifeDec)"

text \<open>
  The life accounting of one thread, given the quit flag \<open>q\<close>, the configured life time
  \<open>lt\<close> and the history \<open>h\<close>: the lambda has called the handler once when it is past
  \<open>Direct\<close>; a thread of \<^verbatim>\<open>addWorker\<close> has the budget \<open>lt\<close>, one of
  \<^verbatim>\<open>addWorkerWithWork\<close> the budget 10; loop invocations and remaining life add up to
  the budget; the body runs on a positive life count only; the loop is left on quit or
  on an exhausted life count; a negative life count is the budget itself.
\<close>

definition life_ok_thread :: "bool \<Rightarrow> int \<Rightarrow> 'w event list \<Rightarrow> nat \<Rightarrow> 'w worker \<Rightarrow> bool" where
  "life_ok_thread q lt h t w =
     (tally (direct_call_by t) h = (if captured w = None \<or> pc w = Direct then 0 else 1)
    \<and> (pc w = Direct \<longrightarrow> captured w \<noteq> None)
    \<and> budget w = (if captured w = None then lt else 10)
    \<and> tally (loop_call_by t) h + lifeCount w = budget w + (if served (pc w) then 1 else 0)
    \<and> (in_body (pc w) \<longrightarrow> 0 < lifeCount w)
    \<and> (pc w = Retire \<or> pc w = Done \<longrightarrow> q \<or> lifeCount w \<le> 0)
    \<and> (lifeCount w < 0 \<longrightarrow> lifeCount w = budget w))"

definition life_ok :: "('w, 'x) pool \<Rightarrow> bool" where
  "life_ok s =
     ((\<forall>t < length (threads s).
         life_ok_thread (quit s) (lifeTime s) (history s) t (threads s ! t))
    \<and> (\<forall>t \<ge> length (threads s). \<forall>e \<in> set (history s). \<not> by_thread t e))"

text \<open>
  The items of a history: pushed, popped, and handed to the handler inside the loop of
  \<^verbatim>\<open>workthread\<close>, each in the order of the events; the last two also per thread.
\<close>

definition pushed :: "'w event list \<Rightarrow> 'w list" where
  "pushed h = concat (map (\<lambda>e. case e of Pushed x \<Rightarrow> [x] | _ \<Rightarrow> []) h)"

definition popped :: "'w event list \<Rightarrow> 'w list" where
  "popped h = concat (map (\<lambda>e. case e of Popped u x \<Rightarrow> [x] | _ \<Rightarrow> []) h)"

definition executed :: "'w event list \<Rightarrow> 'w list" where
  "executed h = concat (map (\<lambda>e. case e of Invoked u x \<Rightarrow> [x] | _ \<Rightarrow> []) h)"

definition popped_by :: "nat \<Rightarrow> 'w event list \<Rightarrow> 'w list" where
  "popped_by t h =
     concat (map (\<lambda>e. case e of Popped u x \<Rightarrow> if u = t then [x] else [] | _ \<Rightarrow> []) h)"

definition executed_by :: "nat \<Rightarrow> 'w event list \<Rightarrow> 'w list" where
  "executed_by t h =
     concat (map (\<lambda>e. case e of Invoked u x \<Rightarrow> if u = t then [x] else [] | _ \<Rightarrow> []) h)"

text \<open>
  A thread holds a popped item that it has not yet handed to the handler exactly between
  the pop and the call.
\<close>

definition own_ok_thread :: "'w event list \<Rightarrow> nat \<Rightarrow> 'w worker \<Rightarrow> bool" where
  "own_ok_thread h t w =
     (if pc w = WorkInc \<or> pc w = Call
      then \<exists>x. workItem w = Some x \<and> popped_by t h = executed_by t h @ [x]
      else popped_by t h = executed_by t h)"

definition fifo_ok :: "('w, 'x) pool \<Rightarrow> bool" where
  "fifo_ok s =
     (pushed (history s) = popped (history s) @ qWork s
    \<and> (\<forall>t < length (threads s). own_ok_thread (history s) t (threads s ! t))
    \<and> (\<forall>t \<ge> length (threads s). \<forall>e \<in> set (history s). \<not> by_thread t e))"

text \<open>
  The events of the loop of \<^verbatim>\<open>workthread\<close>, and the part of a history from the first
  return of \<^verbatim>\<open>kill()\<close> on.
\<close>

definition loop_event :: "'w event \<Rightarrow> bool" where
  "loop_event e = (case e of Popped u x \<Rightarrow> True | Invoked u x \<Rightarrow> True | _ \<Rightarrow> False)"

definition after_kill :: "'w event list \<Rightarrow> 'w event list" where
  "after_kill h = dropWhile (\<lambda>e. e \<noteq> KillReturned) h"

text \<open>
  \<^verbatim>\<open>kill()\<close> sets \<^verbatim>\<open>quit\<close> first; once it has returned, \<^verbatim>\<open>quit\<close> is set and no
  thread is inside the body of the loop; no event of the loop follows its return.
\<close>

definition kill_ok :: "('w, 'x) pool \<Rightarrow> bool" where
  "kill_ok s =
     ((caller s = KillNotify \<or> caller s = KillDetach \<or> caller s = KillSpin \<longrightarrow> quit s)
    \<and> (KillReturned \<in> set (history s) \<longrightarrow>
          quit s \<and> (\<forall>t < length (threads s). \<not> in_body (pc (threads s ! t))))
    \<and> (\<forall>e \<in> set (after_kill (history s)). \<not> loop_event e))"

text \<open>
  A pool without what the handler call statement writes: every member, the threads, the
  caller and the history, but not \<open>ext\<close>.
\<close>

definition shape :: "('w, 'x) pool \<Rightarrow> ('w, unit) pool" where
  "shape s =
     \<lparr>nWorker = nWorker s, nWaiting = nWaiting s, nWorking = nWorking s,
      workers = workers s, qWork = qWork s, queueMutex = queueMutex s,
      lifeTime = lifeTime s, maxWorker = maxWorker s, quit = quit s,
      threads = threads s, caller = caller s, ext = (), history = history s\<rparr>"

section \<open>Proofs\<close>

lemmas machine_defs = step_def caller_step_def workthread_def goto_def upd_def observe_def
  addWorker_def addWorkerWithWork_def notify_one_def notify_all_def blocked_def Let_def

lemmas run_defs = machine_defs DynamicProcessPool_def fire_and_forget_def with_future_def
  doWork_def get_future_def

subsection \<open>Runs and invariants\<close>

lemma exec_invariant:
  assumes "P s" and "\<And>a s s'. P s \<Longrightarrow> step V a s = Some s' \<Longrightarrow> P s'"
  shows "exec V as s = Some s' \<Longrightarrow> P s'"
  using assms(1)
  by (induction as arbitrary: s) (auto split: option.splits dest: assms(2))

lemma exec_append:
  "exec V (as @ bs) s = (case exec V as s of None \<Rightarrow> None | Some s' \<Rightarrow> exec V bs s')"
  by (induction as arbitrary: s) (auto split: option.splits)

lemma fold_addWorker:
  assumes "P s" and "\<And>s. P s \<Longrightarrow> P (addWorker l s)"
  shows "P (fold (\<lambda>i. addWorker l) ks s)"
  using assms(1)
  by (induction ks arbitrary: s) (auto intro: assms(2))

subsection \<open>The steps, case by case\<close>

lemma tally_none: "(\<And>x. x \<in> set xs \<Longrightarrow> \<not> P x) \<Longrightarrow> tally P xs = 0"
  by (induction xs) auto

lemma workthread_cases [consumes 1, case_names Direct Start Loop Exit Acquire Empty Nonempty
    WaitInc Wait Woken WaitDec Again Found Take WorkInc Call WorkDec LifeDec Retire]:
  assumes "workthread V t s = Some s'"
  obtains
    x e where "pc (threads s ! t) = Direct" "captured (threads s ! t) = Some x"
      "direct V t x (ext s) = Some e"
      "s' = goto t Start (observe (DirectInvoked t x) (s\<lparr>ext := e\<rparr>))"
  | "pc (threads s ! t) = Start" "s' = goto t LoopTest (s\<lparr>nWorker := nWorker s + 1\<rparr>)"
  | "pc (threads s ! t) = LoopTest" "\<not> quit s" "0 < lifeCount (threads s ! t)"
      "s' = upd t (\<lambda>w. w\<lparr>pc := Acquire, workItem := None\<rparr>) s"
  | "pc (threads s ! t) = LoopTest" "quit s \<or> lifeCount (threads s ! t) \<le> 0"
      "s' = goto t Retire s"
  | "pc (threads s ! t) = Acquire" "queueMutex s = None"
      "s' = goto t TestEmpty (s\<lparr>queueMutex := Some t\<rparr>)"
  | "pc (threads s ! t) = TestEmpty" "qWork s = []" "s' = goto t WaitInc s"
  | "pc (threads s ! t) = TestEmpty" "qWork s \<noteq> []" "s' = goto t Take s"
  | "pc (threads s ! t) = WaitInc" "s' = goto t Wait (s\<lparr>nWaiting := nWaiting s + 1\<rparr>)"
  | "pc (threads s ! t) = Wait" "s' = goto t Blocked (s\<lparr>queueMutex := None\<rparr>)"
  | "pc (threads s ! t) = Woken" "queueMutex s = None"
      "s' = goto t WaitDec (s\<lparr>queueMutex := Some t\<rparr>)"
  | "pc (threads s ! t) = WaitDec" "s' = goto t Recheck (s\<lparr>nWaiting := nWaiting s - 1\<rparr>)"
  | "pc (threads s ! t) = Recheck" "qWork s = []"
      "s' = goto t LoopTest (s\<lparr>queueMutex := None\<rparr>)"
  | "pc (threads s ! t) = Recheck" "qWork s \<noteq> []" "s' = goto t Take s"
  | x q where "pc (threads s ! t) = Take" "qWork s = x # q"
      "s' = upd t (\<lambda>w. w\<lparr>pc := WorkInc, workItem := Some x\<rparr>)
              (observe (Popped t x) (s\<lparr>qWork := q, queueMutex := None\<rparr>))"
  | "pc (threads s ! t) = WorkInc" "s' = goto t Call (s\<lparr>nWorking := nWorking s + 1\<rparr>)"
  | x e where "pc (threads s ! t) = Call" "workItem (threads s ! t) = Some x"
      "call V t x (ext s) = Some e"
      "s' = goto t WorkDec (observe (Invoked t x) (s\<lparr>ext := e\<rparr>))"
  | "pc (threads s ! t) = WorkDec" "s' = goto t LifeDec (s\<lparr>nWorking := nWorking s - 1\<rparr>)"
  | "pc (threads s ! t) = LifeDec"
      "s' = upd t (\<lambda>w. w\<lparr>pc := LoopTest, lifeCount := lifeCount w - 1\<rparr>) s"
  | "pc (threads s ! t) = Retire" "s' = goto t Done (s\<lparr>nWorker := nWorker s - 1\<rparr>)"
  using assms
  by (cases "pc (threads s ! t)")
     (auto simp: workthread_def Let_def split: option.splits list.splits if_splits)

lemma caller_cases [consumes 1, case_names Over Under Spawn Queue EnqSpawn EnqPush Notify Skip
    EnqReturn KillQuit KillNotify KillDetach Spin Return]:
  assumes "caller_step V k s = Some s'"
  obtains
    w where "caller s = EnqWorker w" "maxWorker s < nWorker s" "s' = s\<lparr>caller := EnqWaiting w\<rparr>"
  | w where "caller s = EnqWorker w" "nWorker s \<le> maxWorker s" "s' = s\<lparr>caller := EnqPush w\<rparr>"
  | w where "caller s = EnqWaiting w" "nWaiting s = 0" "s' = s\<lparr>caller := EnqSpawn w\<rparr>"
  | w where "caller s = EnqWaiting w" "nWaiting s \<noteq> 0" "s' = s\<lparr>caller := EnqPush w\<rparr>"
  | w where "caller s = EnqSpawn w" "s' = (addWorkerWithWork 10 w s)\<lparr>caller := EnqReturn w\<rparr>"
  | w where "caller s = EnqPush w" "queueMutex s = None"
      "s' = observe (Pushed w) (s\<lparr>qWork := qWork s @ [w], caller := EnqNotify w\<rparr>)"
  | w where "caller s = EnqNotify w" "0 < nWaiting s" "blocked s k"
      "s' = (goto k Woken s)\<lparr>caller := EnqReturn w\<rparr>"
  | w where "caller s = EnqNotify w" "s' = s\<lparr>caller := EnqReturn w\<rparr>"
  | w e where "caller s = EnqReturn w" "finish V w (ext s) = Some e"
      "s' = s\<lparr>ext := e, caller := Idle\<rparr>"
  | "caller s = KillQuit" "s' = s\<lparr>quit := True, caller := KillNotify\<rparr>"
  | "caller s = KillNotify" "s' = (notify_all s)\<lparr>caller := KillDetach\<rparr>"
  | "caller s = KillDetach" "s' = s\<lparr>workers := [], caller := KillSpin\<rparr>"
  | "caller s = KillSpin" "0 < nWorker s" "s' = s"
  | "caller s = KillSpin" "nWorker s \<le> 0" "s' = observe KillReturned (s\<lparr>caller := Idle\<rparr>)"
proof (cases "caller s")
  case Idle
  with assms show ?thesis by (simp add: caller_step_def)
next
  case (EnqWorker w)
  with assms that(1,2) [of w] show ?thesis
    by (cases "maxWorker s < nWorker s") (auto simp: caller_step_def)
next
  case (EnqWaiting w)
  with assms that(3,4) [of w] show ?thesis
    by (cases "nWaiting s = 0") (auto simp: caller_step_def)
next
  case (EnqSpawn w)
  with assms that(5) [of w] show ?thesis by (auto simp: caller_step_def)
next
  case (EnqPush w)
  with assms that(6) [of w] show ?thesis by (auto simp: caller_step_def split: if_splits)
next
  case (EnqNotify w)
  with assms that(7,8) [of w] show ?thesis
    by (auto simp: caller_step_def notify_one_def split: if_splits)
next
  case (EnqReturn w)
  with assms that(9) [of w] show ?thesis by (auto simp: caller_step_def split: option.splits)
next
  case KillQuit
  with assms that(10) show ?thesis by (auto simp: caller_step_def)
next
  case KillNotify
  with assms that(11) show ?thesis by (auto simp: caller_step_def)
next
  case KillDetach
  with assms that(12) show ?thesis by (auto simp: caller_step_def)
next
  case KillSpin
  show ?thesis
  proof (cases "0 < nWorker s")
    case True
    with assms KillSpin have "s' = s"
      by (simp add: caller_step_def)
    from that(13) [OF KillSpin True this] show ?thesis .
  next
    case False
    with assms KillSpin have "s' = observe KillReturned (s\<lparr>caller := Idle\<rparr>)"
      by (simp add: caller_step_def)
    moreover from False have "nWorker s \<le> 0" by simp
    ultimately show ?thesis
      using that(14) [OF KillSpin] by blast
  qed
qed

lemma step_cases [consumes 1, case_names Enqueue Kill Caller Thread Spurious]:
  assumes "step V a s = Some s'"
  obtains
    x w e where "a = Enqueue x" "caller s = Idle" "wrap V x (ext s) = (w, e)"
      "s' = s\<lparr>ext := e, caller := EnqWorker w\<rparr>"
  | "a = Kill" "caller s = Idle" "s' = s\<lparr>caller := KillQuit\<rparr>"
  | k where "a = Caller k" "caller_step V k s = Some s'"
  | t where "a = Thread t" "t < length (threads s)" "workthread V t s = Some s'"
  | t where "a = Spurious t" "blocked s t" "s' = goto t Woken s"
  using assms
  by (cases a) (auto simp: step_def split: if_splits prod.splits)

lemma workthread_frame:
  assumes "workthread V t s = Some s'" "t < length (threads s)"
  shows "quit s' = quit s" "lifeTime s' = lifeTime s" "maxWorker s' = maxWorker s"
    "caller s' = caller s" "workers s' = workers s"
    "length (threads s') = length (threads s)"
    "u \<noteq> t \<Longrightarrow> threads s' ! u = threads s ! u"
    "\<exists>es. history s' = history s @ es \<and> (\<forall>e \<in> set es. by_thread t e)"
  using assms
  by (cases rule: workthread_cases;
      auto simp: goto_def upd_def observe_def by_thread_def)+

subsection \<open>The counters count threads\<close>

lemma tally_append [simp]: "tally P (xs @ ys) = tally P xs + tally P ys"
  by (induction xs) auto

lemma tally_update:
  "t < length xs \<Longrightarrow>
   tally P (xs[t := y]) = tally P xs - (if P (xs ! t) then 1 else 0) + (if P y then 1 else 0)"
proof (induction xs arbitrary: t)
  case Nil
  then show ?case by simp
next
  case (Cons x xs)
  then show ?case
    by (cases t) auto
qed

lemma tally_map_same:
  "(\<And>x. P (f x) = P x) \<Longrightarrow> tally P (map f xs) = tally P xs"
  by (induction xs) auto

lemma tally_le:
  "(\<And>x. P x \<Longrightarrow> \<not> Q x) \<Longrightarrow> (\<And>x. P x \<Longrightarrow> R x) \<Longrightarrow> (\<And>x. Q x \<Longrightarrow> R x) \<Longrightarrow>
   tally P xs + tally Q xs \<le> tally R xs"
proof (induction xs)
  case Nil
  show ?case by simp
next
  case (Cons x xs)
  from Cons.prems
  have "(if P x then 1 else 0) + (if Q x then 1 else 0) \<le> (if R x then (1::int) else 0)"
    by auto
  moreover have "tally P xs + tally Q xs \<le> tally R xs"
    using Cons by blast
  ultimately show ?case by simp
qed

lemma tally_nonneg: "0 \<le> tally P xs"
  by (induction xs) auto

lemma tally_zero: "tally P xs \<le> 0 \<Longrightarrow> x \<in> set xs \<Longrightarrow> \<not> P x"
proof (induction xs)
  case Nil
  then show ?case by simp
next
  case (Cons y ys)
  then show ?case
    using tally_nonneg [of P ys] by (auto split: if_splits)
qed

lemma counters_init: "counters_ok (DynamicProcessPool n m l x)"
  unfolding DynamicProcessPool_def
  by (rule fold_addWorker)
     (simp_all add: counters_ok_def addWorker_def counted_def waiting_now_def working_now_def)

lemma counters_thread:
  assumes "counters_ok s" "t < length (threads s)" "workthread V t s = Some s'"
  shows "counters_ok s'"
  using assms
  by (cases "pc (threads s ! t)")
     (auto simp: workthread_def counters_ok_def goto_def upd_def observe_def tally_update
        counted_def waiting_now_def working_now_def Let_def
        split: option.splits list.splits if_splits)

lemma counters_notify_all: "counters_ok s \<Longrightarrow> counters_ok (notify_all s)"
  by (simp add: counters_ok_def notify_all_def counted_def waiting_now_def working_now_def
      tally_map_same)

lemma counters_wake:
  "counters_ok s \<Longrightarrow> blocked s k \<Longrightarrow> counters_ok (goto k Woken s)"
  by (auto simp: counters_ok_def blocked_def goto_def upd_def tally_update
      counted_def waiting_now_def working_now_def)

lemma counters_caller:
  assumes "counters_ok s" "caller_step V k s = Some s'"
  shows "counters_ok s'"
proof (cases "caller s")
  case (EnqNotify w)
  with assms show ?thesis
    using counters_wake [of s k]
    by (auto simp: caller_step_def notify_one_def counters_ok_def split: if_splits)
next
  case KillNotify
  with assms show ?thesis
    using counters_notify_all [of s]
    by (auto simp: caller_step_def counters_ok_def)
qed (use assms in \<open>auto simp: caller_step_def counters_ok_def addWorkerWithWork_def observe_def
       counted_def waiting_now_def working_now_def split: option.splits if_splits\<close>)

lemma counters_step:
  assumes "counters_ok s" "step V a s = Some s'"
  shows "counters_ok s'"
proof (cases a)
  case (Enqueue x)
  with assms show ?thesis
    by (auto simp: step_def counters_ok_def split: if_splits prod.splits)
next
  case Kill
  with assms show ?thesis
    by (auto simp: step_def counters_ok_def split: if_splits)
next
  case (Caller k)
  with assms show ?thesis
    by (auto simp: step_def intro: counters_caller)
next
  case (Thread t)
  with assms show ?thesis
    by (auto simp: step_def split: if_splits intro: counters_thread)
next
  case (Spurious t)
  with assms show ?thesis
    by (auto simp: step_def split: if_splits intro: counters_wake)
qed

lemma counters_reachable:
  "exec V as (DynamicProcessPool n m l x) = Some s \<Longrightarrow> counters_ok s"
  by (rule exec_invariant [where P = counters_ok, OF counters_init counters_step])

lemma counters_sum: "counters_ok s \<Longrightarrow> nWaiting s + nWorking s \<le> nWorker s"
proof -
  have "tally waiting_now (threads s) + tally working_now (threads s)
          \<le> tally counted (threads s)"
    by (rule tally_le) (auto simp: counted_def waiting_now_def working_now_def)
  then show "counters_ok s \<Longrightarrow> nWaiting s + nWorking s \<le> nWorker s"
    by (simp add: counters_ok_def)
qed

subsection \<open>Life accounting\<close>

lemma life_thread_self:
  assumes "workthread V t s = Some s'"
    "life_ok_thread (quit s) (lifeTime s) (history s) t (threads s ! t)"
    "t < length (threads s)" 
  shows "life_ok_thread (quit s') (lifeTime s') (history s') t (threads s' ! t)"
  using assms
  by (cases rule: workthread_cases)
     (auto simp: life_ok_thread_def goto_def upd_def observe_def
        loop_call_by_def direct_call_by_def served_def in_body_def)

lemma by_thread_unique: "by_thread t e \<Longrightarrow> by_thread u e \<Longrightarrow> u = t"
  by (auto simp: by_thread_def split: event.splits)

lemma calls_by_thread:
  "loop_call_by t e \<Longrightarrow> by_thread t e" "direct_call_by t e \<Longrightarrow> by_thread t e"
  by (auto simp: by_thread_def loop_call_by_def direct_call_by_def split: event.splits)

lemma tally_foreign:
  assumes "\<forall>e \<in> set es. by_thread t e" "u \<noteq> t"
  shows "tally (loop_call_by u) es = 0" "tally (direct_call_by u) es = 0"
  using assms
  by (auto intro!: tally_none simp: by_thread_def loop_call_by_def direct_call_by_def
      split: event.splits)

lemma life_thread_other:
  assumes "workthread V t s = Some s'" "t < length (threads s)" "u \<noteq> t"
  shows "life_ok_thread (quit s') (lifeTime s') (history s') u (threads s' ! u)
       = life_ok_thread (quit s) (lifeTime s) (history s) u (threads s ! u)"
proof -
  from workthread_frame(8) [OF assms(1,2)] obtain es
    where es: "history s' = history s @ es" "\<forall>e \<in> set es. by_thread t e"
    by blast
  show ?thesis
    using workthread_frame(1,2,7) [OF assms(1,2)] assms(3) tally_foreign [OF es(2) assms(3)]
    by (simp add: life_ok_thread_def es(1))
qed

lemma life_thread:
  assumes "life_ok s" "t < length (threads s)" "workthread V t s = Some s'"
  shows "life_ok s'"
  unfolding life_ok_def
proof (intro conjI allI impI ballI)
  fix u assume "u < length (threads s')"
  then have u: "u < length (threads s)"
    using workthread_frame(6) [OF assms(3,2)] by simp
  show "life_ok_thread (quit s') (lifeTime s') (history s') u (threads s' ! u)"
  proof (cases "u = t")
    case True
    then show ?thesis
      using life_thread_self [OF assms(3) _ assms(2)] assms(1,2) by (simp add: life_ok_def)
  next
    case False
    then show ?thesis
      using life_thread_other [OF assms(3,2) False] assms(1) u by (simp add: life_ok_def)
  qed
next
  fix u e assume "length (threads s') \<le> u" "e \<in> set (history s')"
  then have u: "length (threads s) \<le> u" "u \<noteq> t"
    using workthread_frame(6) [OF assms(3,2)] assms(2) by auto
  from workthread_frame(8) [OF assms(3,2)] obtain es
    where es: "history s' = history s @ es" "\<forall>e \<in> set es. by_thread t e"
    by blast
  from \<open>e \<in> set (history s')\<close> es(1) have "e \<in> set (history s) \<or> e \<in> set es"
    by auto
  then show "\<not> by_thread u e"
  proof
    assume "e \<in> set (history s)"
    with assms(1) u(1) show ?thesis
      unfolding life_ok_def by blast
  next
    assume "e \<in> set es"
    with es(2) have "by_thread t e" by blast
    with u(2) show ?thesis
      using by_thread_unique by blast
  qed
qed

lemma life_ok_thread_wake:
  "life_ok_thread q lt h t w \<Longrightarrow> pc w = Blocked \<Longrightarrow> life_ok_thread q lt h t (w\<lparr>pc := Woken\<rparr>)"
  by (simp add: life_ok_thread_def served_def in_body_def)

lemma life_wake:
  assumes "life_ok s" "blocked s k"
  shows "life_ok (goto k Woken s)"
  using assms
  by (auto simp: life_ok_def blocked_def goto_def upd_def nth_list_update
      intro: life_ok_thread_wake)

lemma life_notify_all: "life_ok s \<Longrightarrow> life_ok (notify_all s)"
  by (auto simp: life_ok_def notify_all_def intro: life_ok_thread_wake)

lemma life_ok_thread_quit:
  "life_ok_thread q lt h t w \<Longrightarrow> life_ok_thread True lt h t w"
  unfolding life_ok_thread_def by blast

lemma life_ok_thread_event:
  assumes "life_ok_thread q lt h t w" "\<not> by_thread t e"
  shows "life_ok_thread q lt (h @ [e]) t w"
proof -
  from assms(2) have "\<not> loop_call_by t e" "\<not> direct_call_by t e"
    using calls_by_thread by blast+
  then have same: "tally (loop_call_by t) (h @ [e]) = tally (loop_call_by t) h"
    "tally (direct_call_by t) (h @ [e]) = tally (direct_call_by t) h"
    by simp_all
  show ?thesis
    using assms(1) unfolding life_ok_thread_def same .
qed

lemma life_spawn: 
  assumes "life_ok s"
  shows "life_ok (addWorkerWithWork 10 w s)"
  unfolding life_ok_def
proof (intro conjI allI impI ballI)
  fix t assume "t < length (threads (addWorkerWithWork 10 w s))"
  then have "t < length (threads s) \<or> t = length (threads s)"
    by (auto simp: addWorkerWithWork_def)
  then consider "t < length (threads s)" | "t = length (threads s)"
    by blast
  then show "life_ok_thread (quit (addWorkerWithWork 10 w s)) (lifeTime (addWorkerWithWork 10 w s))
      (history (addWorkerWithWork 10 w s)) t (threads (addWorkerWithWork 10 w s) ! t)"
  proof cases
    case 1
    then show ?thesis
      using assms by (simp add: life_ok_def addWorkerWithWork_def nth_append)
  next
    case 2
    have "\<forall>e \<in> set (history s). \<not> by_thread t e"
      using assms 2 unfolding life_ok_def by blast
    then have "tally (loop_call_by t) (history s) = 0" "tally (direct_call_by t) (history s) = 0"
      by (auto intro!: tally_none dest: calls_by_thread)
    then show ?thesis
      using 2
      by (simp add: life_ok_thread_def addWorkerWithWork_def served_def in_body_def)
  qed
next
  fix t e assume "length (threads (addWorkerWithWork 10 w s)) \<le> t"
    "e \<in> set (history (addWorkerWithWork 10 w s))"
  then show "\<not> by_thread t e"
    using assms by (simp add: life_ok_def addWorkerWithWork_def)
qed

lemma life_caller:
  assumes "caller_step V k s = Some s'" "life_ok s" 
  shows "life_ok s'"
  using assms
proof (cases rule: caller_cases)
  case (EnqSpawn w)
  then show ?thesis
    using life_spawn [OF assms(2), of w] by (simp add: life_ok_def)
next
  case (Notify w)
  then show ?thesis
    using life_wake [OF assms(2), of k] by (simp add: life_ok_def)
next
  case KillNotify
  then show ?thesis
    using life_notify_all [OF assms(2)] by (simp add: life_ok_def)
next
  case KillQuit
  then show ?thesis
    using assms(2) by (auto simp: life_ok_def intro: life_ok_thread_quit)
next
  case (EnqPush w)
  then show ?thesis
    using assms(2)
    by (auto simp: life_ok_def observe_def by_thread_def intro!: life_ok_thread_event)
next
  case Return
  then show ?thesis
    using assms(2)
    by (auto simp: life_ok_def observe_def by_thread_def intro!: life_ok_thread_event)
qed (use assms(2) in \<open>auto simp: life_ok_def\<close>)

lemma life_step:
  assumes "life_ok s" "step V a s = Some s'"
  shows "life_ok s'"
  using assms(2,1)
proof (cases rule: step_cases)
  case (Caller k)
  then show ?thesis using life_caller assms(1) by blast
next
  case (Thread t)
  then show ?thesis using life_thread assms(1) by blast
next
  case (Spurious t)
  then show ?thesis using life_wake assms(1) by blast
qed (auto simp: life_ok_def)

lemma life_addWorker:
  assumes "life_ok s" "history s = []" "lifeTime s = l"
  shows "life_ok (addWorker l s)"
  unfolding life_ok_def
proof (intro conjI allI impI ballI)
  fix t assume "t < length (threads (addWorker l s))"
  then have "t < length (threads s) \<or> t = length (threads s)"
    by (auto simp: addWorker_def)
  then show "life_ok_thread (quit (addWorker l s)) (lifeTime (addWorker l s))
      (history (addWorker l s)) t (threads (addWorker l s) ! t)"
  proof
    assume "t < length (threads s)"
    then show ?thesis
      using assms(1) by (simp add: life_ok_def addWorker_def nth_append)
  next
    assume "t = length (threads s)"
    then show ?thesis
      using assms(2,3)
      by (simp add: life_ok_thread_def addWorker_def served_def in_body_def)
  qed
next
  fix t e assume "e \<in> set (history (addWorker l s))"
  then show "\<not> by_thread t e"
    using assms(2) by (simp add: addWorker_def)
qed

lemma life_init: "life_ok (DynamicProcessPool n m l x)"
  unfolding DynamicProcessPool_def
proof (rule fold_addWorker [where P = "\<lambda>s. life_ok s \<and> history s = [] \<and> lifeTime s = l",
        THEN conjunct1])
  show "life_ok \<lparr>nWorker = 0, nWaiting = 0, nWorking = 0, workers = [], qWork = [],
      queueMutex = None, lifeTime = l, maxWorker = m, quit = False, threads = [],
      caller = Idle, ext = x, history = []\<rparr>
    \<and> history \<lparr>nWorker = 0, nWaiting = 0, nWorking = 0, workers = [], qWork = [],
      queueMutex = None, lifeTime = l, maxWorker = m, quit = False, threads = [],
      caller = Idle, ext = x, history = []\<rparr> = []
    \<and> lifeTime \<lparr>nWorker = 0, nWaiting = 0, nWorking = 0, workers = [], qWork = [],
      queueMutex = None, lifeTime = l, maxWorker = m, quit = False, threads = [],
      caller = Idle, ext = x, history = []\<rparr> = l"
    by (simp add: life_ok_def)
next
  fix s :: "('a, 'b) pool"
  assume "life_ok s \<and> history s = [] \<and> lifeTime s = l"
  then show "life_ok (addWorker l s) \<and> history (addWorker l s) = []
      \<and> lifeTime (addWorker l s) = l"
    using life_addWorker [of s l] by (simp add: addWorker_def)
qed

lemma life_reachable:
  "exec V as (DynamicProcessPool n m l x) = Some s \<Longrightarrow> life_ok s"
  by (rule exec_invariant [where P = life_ok, OF life_init life_step])

subsection \<open>What a step leaves alone\<close>

lemma caller_frame:
  assumes "caller_step V k s = Some s'"
  shows "lifeTime s' = lifeTime s" "maxWorker s' = maxWorker s" "quit s \<Longrightarrow> quit s'"
    "length (threads s) \<le> length (threads s')"
    "t < length (threads s) \<Longrightarrow> lifeCount (threads s' ! t) = lifeCount (threads s ! t)"
  using assms
  by (cases rule: caller_cases;
      simp add: addWorkerWithWork_def observe_def goto_def upd_def notify_all_def nth_append
        nth_list_update blocked_def)+



lemma step_config:
  assumes "step V a s = Some s'"
  shows "lifeTime s' = lifeTime s \<and> maxWorker s' = maxWorker s"
  using assms
proof (cases rule: step_cases)
  case (Caller k)
  then show ?thesis using caller_frame(1,2) by blast
next
  case (Thread u)
  then show ?thesis using workthread_frame(2,3) by blast
qed (simp_all add: goto_def upd_def)

lemma config_init:
  "lifeTime (DynamicProcessPool n m l x :: ('w, 'x) pool) = l
   \<and> maxWorker (DynamicProcessPool n m l x :: ('w, 'x) pool) = m"
  unfolding DynamicProcessPool_def
  by (rule fold_addWorker
        [where P = "\<lambda>s :: ('w, 'x) pool. lifeTime s = l \<and> maxWorker s = m"])
     (simp_all add: addWorker_def)

lemma config_reachable:
  fixes s :: "('w, 'x) pool"
  assumes "exec V as (DynamicProcessPool n m l x) = Some s"
  shows "lifeTime s = l \<and> maxWorker s = m"
proof (rule exec_invariant
    [where P = "\<lambda>s :: ('w, 'x) pool. lifeTime s = l \<and> maxWorker s = m", OF _ _ assms])
  show "lifeTime (DynamicProcessPool n m l x :: ('w, 'x) pool) = l
      \<and> maxWorker (DynamicProcessPool n m l x :: ('w, 'x) pool) = m"
    by (rule config_init)
next
  fix a and s s' :: "('w, 'x) pool"
  assume "lifeTime s = l \<and> maxWorker s = m" "step V a s = Some s'"
  then show "lifeTime s' = l \<and> maxWorker s' = m"
    using step_config [of V a s s'] by simp
qed


subsection \<open>First in, first out\<close>

lemma items_append [simp]:
  "pushed (h @ k) = pushed h @ pushed k"
  "popped (h @ k) = popped h @ popped k"
  "executed (h @ k) = executed h @ executed k"
  "popped_by t (h @ k) = popped_by t h @ popped_by t k"
  "executed_by t (h @ k) = executed_by t h @ executed_by t k"
  by (simp_all add: pushed_def popped_def executed_def popped_by_def executed_by_def)

lemma items_single [simp]:
  "pushed [e] = (case e of Pushed x \<Rightarrow> [x] | _ \<Rightarrow> [])"
  "popped [e] = (case e of Popped u x \<Rightarrow> [x] | _ \<Rightarrow> [])"
  "executed [e] = (case e of Invoked u x \<Rightarrow> [x] | _ \<Rightarrow> [])"
  "popped_by t [e] = (case e of Popped u x \<Rightarrow> if u = t then [x] else [] | _ \<Rightarrow> [])"
  "executed_by t [e] = (case e of Invoked u x \<Rightarrow> if u = t then [x] else [] | _ \<Rightarrow> [])"
  by (simp_all add: pushed_def popped_def executed_def popped_by_def executed_by_def)

lemma items_Nil [simp]:
  "pushed [] = []" "popped [] = []" "executed [] = []"
  "popped_by t [] = []" "executed_by t [] = []"
  by (simp_all add: pushed_def popped_def executed_def popped_by_def executed_by_def)

lemma items_foreign:
  assumes "\<forall>e \<in> set es. \<not> by_thread t e"
  shows "popped_by t es = []" "executed_by t es = []"
  using assms
  by (induction es)
     (auto simp: popped_by_def executed_by_def by_thread_def split: event.splits)

lemma fifo_thread_queue:
  assumes "workthread V t s = Some s'"
    "pushed (history s) = popped (history s) @ qWork s"
  shows "pushed (history s') = popped (history s') @ qWork s'"
  using assms
  by (cases rule: workthread_cases) (simp_all add: goto_def upd_def observe_def)

lemma fifo_thread_self:
  assumes "workthread V t s = Some s'" "own_ok_thread (history s) t (threads s ! t)"
    "t < length (threads s)"
  shows "own_ok_thread (history s') t (threads s' ! t)"
  using assms
  by (cases rule: workthread_cases)
     (simp_all add: own_ok_thread_def goto_def upd_def observe_def)

lemma fifo_thread_other:
  assumes "workthread V t s = Some s'" "t < length (threads s)" "u \<noteq> t"
  shows "own_ok_thread (history s') u (threads s' ! u)
       = own_ok_thread (history s) u (threads s ! u)"
proof -
  from workthread_frame(8) [OF assms(1,2)] obtain es
    where es: "history s' = history s @ es" "\<forall>e \<in> set es. by_thread t e"
    by blast
  from es(2) assms(3) have "\<forall>e \<in> set es. \<not> by_thread u e"
    using by_thread_unique by blast
  from items_foreign [OF this] show ?thesis
    using workthread_frame(7) [OF assms(1,2) assms(3)]
    by (simp add: own_ok_thread_def es(1))
qed

lemma foreign_thread:
  assumes "workthread V t s = Some s'" "t < length (threads s)"
    "\<forall>t \<ge> length (threads s). \<forall>e \<in> set (history s). \<not> by_thread t e"
  shows "\<forall>t \<ge> length (threads s'). \<forall>e \<in> set (history s'). \<not> by_thread t e"
proof (intro allI impI ballI)
  fix u e assume "length (threads s') \<le> u" "e \<in> set (history s')"
  then have u: "length (threads s) \<le> u" "u \<noteq> t"
    using workthread_frame(6) [OF assms(1,2)] assms(2) by auto
  from workthread_frame(8) [OF assms(1,2)] obtain es
    where es: "history s' = history s @ es" "\<forall>e \<in> set es. by_thread t e"
    by blast
  from \<open>e \<in> set (history s')\<close> es(1) have "e \<in> set (history s) \<or> e \<in> set es"
    by auto
  then show "\<not> by_thread u e"
  proof
    assume "e \<in> set (history s)"
    with assms(3) u(1) show ?thesis by blast
  next
    assume "e \<in> set es"
    with es(2) have "by_thread t e" by blast
    with u(2) show ?thesis
      using by_thread_unique by blast
  qed
qed

lemma fifo_thread:
  assumes "fifo_ok s" "t < length (threads s)" "workthread V t s = Some s'"
  shows "fifo_ok s'"
  unfolding fifo_ok_def
proof (intro conjI)
  show "pushed (history s') = popped (history s') @ qWork s'"
    using fifo_thread_queue [OF assms(3)] assms(1) by (simp add: fifo_ok_def)
next
  show "\<forall>u < length (threads s'). own_ok_thread (history s') u (threads s' ! u)"
  proof (intro allI impI)
    fix u assume "u < length (threads s')"
    then have u: "u < length (threads s)"
      using workthread_frame(6) [OF assms(3,2)] by simp
    show "own_ok_thread (history s') u (threads s' ! u)"
    proof (cases "u = t")
      case True
      then show ?thesis
        using fifo_thread_self [OF assms(3) _ assms(2)] assms(1,2) by (simp add: fifo_ok_def)
    next
      case False
      then show ?thesis
        using fifo_thread_other [OF assms(3,2) False] assms(1) u by (simp add: fifo_ok_def)
    qed
  qed
next
  show "\<forall>t \<ge> length (threads s'). \<forall>e \<in> set (history s'). \<not> by_thread t e"
    using foreign_thread [OF assms(3,2)] assms(1) by (simp add: fifo_ok_def)
qed

lemma own_ok_thread_wake:
  "own_ok_thread h t w \<Longrightarrow> pc w = Blocked \<Longrightarrow> own_ok_thread h t (w\<lparr>pc := Woken\<rparr>)"
  by (simp add: own_ok_thread_def)

lemma own_ok_thread_event:
  assumes "own_ok_thread h t w" "\<not> by_thread t e"
  shows "own_ok_thread (h @ [e]) t w"
proof -
  have "popped_by t [e] = []" "executed_by t [e] = []"
    using items_foreign [of "[e]" t] assms(2) by simp_all
  then have same: "popped_by t (h @ [e]) = popped_by t h"
    "executed_by t (h @ [e]) = executed_by t h"
    by (simp_all del: items_single)
  show ?thesis
    using assms(1) unfolding own_ok_thread_def same .
qed

lemma fifo_wake:
  assumes "fifo_ok s" "blocked s k"
  shows "fifo_ok (goto k Woken s)"
  using assms
  by (auto simp: fifo_ok_def blocked_def goto_def upd_def nth_list_update
      intro: own_ok_thread_wake)

lemma fifo_notify_all: "fifo_ok s \<Longrightarrow> fifo_ok (notify_all s)"
  by (auto simp: fifo_ok_def notify_all_def intro: own_ok_thread_wake)

lemma fifo_spawn:
  assumes "fifo_ok s"
  shows "fifo_ok (addWorkerWithWork 10 w s)"
  unfolding fifo_ok_def
proof (intro conjI allI impI ballI)
  show "pushed (history (addWorkerWithWork 10 w s))
      = popped (history (addWorkerWithWork 10 w s)) @ qWork (addWorkerWithWork 10 w s)"
    using assms by (simp add: fifo_ok_def addWorkerWithWork_def)
next
  fix t assume "t < length (threads (addWorkerWithWork 10 w s))"
  then have "t < length (threads s) \<or> t = length (threads s)"
    by (auto simp: addWorkerWithWork_def)
  then show "own_ok_thread (history (addWorkerWithWork 10 w s)) t
      (threads (addWorkerWithWork 10 w s) ! t)"
  proof
    assume "t < length (threads s)"
    then show ?thesis
      using assms by (simp add: fifo_ok_def addWorkerWithWork_def nth_append)
  next
    assume t: "t = length (threads s)"
    then have "\<forall>e \<in> set (history s). \<not> by_thread t e"
      using assms unfolding fifo_ok_def by blast
    from items_foreign [OF this] show ?thesis
      using t by (simp add: own_ok_thread_def addWorkerWithWork_def)
  qed
next
  fix t e assume "length (threads (addWorkerWithWork 10 w s)) \<le> t"
    "e \<in> set (history (addWorkerWithWork 10 w s))"
  then show "\<not> by_thread t e"
    using assms by (simp add: fifo_ok_def addWorkerWithWork_def)
qed

lemma fifo_caller:
  assumes "caller_step V k s = Some s'" "fifo_ok s"
  shows "fifo_ok s'"
  using assms
proof (cases rule: caller_cases)
  case (EnqSpawn w)
  then show ?thesis
    using fifo_spawn [OF assms(2), of w] by (simp add: fifo_ok_def)
next
  case (Notify w)
  then show ?thesis
    using fifo_wake [OF assms(2), of k] by (simp add: fifo_ok_def)
next
  case KillNotify
  then show ?thesis
    using fifo_notify_all [OF assms(2)] by (simp add: fifo_ok_def)
next
  case (EnqPush w)
  then show ?thesis
    using assms(2)
    by (auto simp: fifo_ok_def observe_def by_thread_def intro!: own_ok_thread_event)
next
  case Return
  then show ?thesis
    using assms(2)
    by (auto simp: fifo_ok_def observe_def by_thread_def intro!: own_ok_thread_event)
qed (use assms(2) in \<open>auto simp: fifo_ok_def\<close>)

lemma fifo_step:
  assumes "fifo_ok s" "step V a s = Some s'"
  shows "fifo_ok s'"
  using assms(2,1)
proof (cases rule: step_cases)
  case (Caller k)
  then show ?thesis using fifo_caller assms(1) by blast
next
  case (Thread t)
  then show ?thesis using fifo_thread assms(1) by blast
next
  case (Spurious t)
  then show ?thesis using fifo_wake assms(1) by blast
qed (auto simp: fifo_ok_def)

lemma fifo_addWorker:
  assumes "fifo_ok s" "history s = []"
  shows "fifo_ok (addWorker l s)"
  using assms
  by (auto simp: fifo_ok_def addWorker_def nth_append own_ok_thread_def)

lemma fifo_init: "fifo_ok (DynamicProcessPool n m l x)"
  unfolding DynamicProcessPool_def
proof (rule fold_addWorker [where P = "\<lambda>s. fifo_ok s \<and> history s = []", THEN conjunct1])
  show "fifo_ok \<lparr>nWorker = 0, nWaiting = 0, nWorking = 0, workers = [], qWork = [],
      queueMutex = None, lifeTime = l, maxWorker = m, quit = False, threads = [],
      caller = Idle, ext = x, history = []\<rparr>
    \<and> history \<lparr>nWorker = 0, nWaiting = 0, nWorking = 0, workers = [], qWork = [],
      queueMutex = None, lifeTime = l, maxWorker = m, quit = False, threads = [],
      caller = Idle, ext = x, history = []\<rparr> = []"
    by (simp add: fifo_ok_def)
next
  fix s :: "('a, 'b) pool"
  assume "fifo_ok s \<and> history s = []"
  then show "fifo_ok (addWorker l s) \<and> history (addWorker l s) = []"
    using fifo_addWorker [of s l] by (simp add: addWorker_def)
qed

lemma fifo_reachable:
  "exec V as (DynamicProcessPool n m l x) = Some s \<Longrightarrow> fifo_ok s"
  by (rule exec_invariant [where P = fifo_ok, OF fifo_init fifo_step])

subsection \<open>After kill() has returned\<close>

lemma after_kill_in:
  "KillReturned \<in> set h \<Longrightarrow> after_kill (h @ es) = after_kill h @ es"
  unfolding after_kill_def by (rule dropWhile_append1 [where x = KillReturned]) simp_all

lemma after_kill_out:
  "KillReturned \<notin> set h \<Longrightarrow> after_kill (h @ es) = after_kill es"
  unfolding after_kill_def by (rule dropWhile_append2) auto

lemma after_kill_none:
  "KillReturned \<notin> set h \<Longrightarrow> after_kill h = []"
  unfolding after_kill_def by (induction h) auto

lemma by_thread_not_return: "by_thread t e \<Longrightarrow> e \<noteq> KillReturned"
  by (auto simp: by_thread_def)

lemma thread_after_quit:
  assumes "workthread V t s = Some s'" "quit s" "\<not> in_body (pc (threads s ! t))"
    "t < length (threads s)"
  shows "\<not> in_body (pc (threads s' ! t))"
    "\<exists>es. history s' = history s @ es \<and> (\<forall>e \<in> set es. \<not> loop_event e)"
    "qWork s' = qWork s"
  using assms
  by (cases rule: workthread_cases;
      simp add: in_body_def goto_def upd_def observe_def loop_event_def)+

lemma kill_thread:
  assumes "kill_ok s" "t < length (threads s)" "workthread V t s = Some s'"
  shows "kill_ok s'"
proof -
  note fr = workthread_frame [OF assms(3,2)]
  from fr(8) obtain es where es: "history s' = history s @ es" "\<forall>e \<in> set es. by_thread t e"
    by blast
  show ?thesis
  proof (cases "KillReturned \<in> set (history s)")
    case True
    with assms(1) have q: "quit s" and out: "\<forall>u < length (threads s). \<not> in_body (pc (threads s ! u))"
      and old: "\<forall>e \<in> set (after_kill (history s)). \<not> loop_event e"
      by (simp_all add: kill_ok_def)
    from out assms(2) have "\<not> in_body (pc (threads s ! t))" by blast
    note aq = thread_after_quit [OF assms(3) q this assms(2)]
    from aq(2) es(1) have new: "\<forall>e \<in> set es. \<not> loop_event e"
      by auto
    have "\<forall>u < length (threads s'). \<not> in_body (pc (threads s' ! u))"
    proof (intro allI impI)
      fix u assume "u < length (threads s')"
      then have "u < length (threads s)" using fr(6) by simp
      then show "\<not> in_body (pc (threads s' ! u))"
        using aq(1) fr(7) [of u] out by (cases "u = t") auto
    qed
    moreover have "\<forall>e \<in> set (after_kill (history s')). \<not> loop_event e"
      using old new by (auto simp: es(1) after_kill_in [OF True])
    ultimately show ?thesis
      using assms(1) q fr(1,4) by (simp add: kill_ok_def)
  next
    case False
    from es(2) have "KillReturned \<notin> set es"
      using by_thread_not_return by blast
    with False have "KillReturned \<notin> set (history s')" "after_kill (history s') = []"
      by (simp_all add: es(1) after_kill_none)
    then show ?thesis
      using assms(1) fr(1,4) by (simp add: kill_ok_def)
  qed
qed

lemma kill_wake:
  assumes "kill_ok s" "blocked s k"
  shows "kill_ok (goto k Woken s)"
proof -
  have "in_body (pc (threads s ! k))" "k < length (threads s)"
    using assms(2) by (simp_all add: blocked_def in_body_def)
  with assms(1) have "KillReturned \<notin> set (history s)"
    unfolding kill_ok_def by blast
  with assms(1) show ?thesis
    by (simp add: kill_ok_def goto_def upd_def)
qed

lemma kill_notify_all: 
  assumes "kill_ok s"
  shows "kill_ok (notify_all s)"
proof -
  have "\<not> in_body (pc (threads (notify_all s) ! t))"
    if "t < length (threads s)" "\<not> in_body (pc (threads s ! t))" for t
    using that by (auto simp: notify_all_def in_body_def)
  with assms show ?thesis
    by (simp add: kill_ok_def notify_all_def)
qed

lemma kill_event:
  assumes "kill_ok s" "\<not> loop_event e" "e \<noteq> KillReturned"
  shows "kill_ok (observe e s)"
proof (cases "KillReturned \<in> set (history s)")
  case True
  then have "after_kill (history s @ [e]) = after_kill (history s) @ [e]"
    by (rule after_kill_in)
  with assms True show ?thesis
    by (auto simp: kill_ok_def observe_def)
next
  case False
  have "after_kill [e] = []"
    using assms(3) by (simp add: after_kill_def)
  with False have "after_kill (history s @ [e]) = []"
    by (simp add: after_kill_out)
  with assms False show ?thesis
    by (simp add: kill_ok_def observe_def)
qed

lemma kill_return:
  assumes "kill_ok s" "counters_ok s" "caller s = KillSpin" "nWorker s \<le> 0"
  shows "kill_ok (observe KillReturned (s\<lparr>caller := Idle\<rparr>))"
proof -
  from assms(1,3) have q: "quit s"
    by (simp add: kill_ok_def)
  have out: "\<not> in_body (pc (threads s ! t))" if "t < length (threads s)" for t
  proof -
    from assms(2,4) have "tally counted (threads s) \<le> 0"
      by (simp add: counters_ok_def)
    from tally_zero [OF this, of "threads s ! t"] that have "\<not> counted (threads s ! t)"
      by simp
    then show ?thesis
      by (auto simp: counted_def in_body_def)
  qed
  have "\<forall>e \<in> set (after_kill (history s @ [KillReturned])). \<not> loop_event e"
  proof (cases "KillReturned \<in> set (history s)")
    case True
    then have "after_kill (history s @ [KillReturned]) = after_kill (history s) @ [KillReturned]"
      by (rule after_kill_in)
    with assms(1) show ?thesis
      by (auto simp: kill_ok_def loop_event_def)
  next
    case False
    have "after_kill [KillReturned] = [KillReturned]"
      by (simp add: after_kill_def)
    with False have "after_kill (history s @ [KillReturned]) = [KillReturned]"
      by (simp add: after_kill_out)
    then show ?thesis
      by (simp add: loop_event_def)
  qed
  with q out show ?thesis
    by (simp add: kill_ok_def observe_def)
qed

lemma kill_spawn:
  assumes "kill_ok s"
  shows "kill_ok (addWorkerWithWork 10 w s)"
proof -
  have "\<not> in_body (pc (threads (addWorkerWithWork 10 w s) ! t))"
    if "t < length (threads (addWorkerWithWork 10 w s))"
      "\<forall>u < length (threads s). \<not> in_body (pc (threads s ! u))" for t
    using that by (auto simp: addWorkerWithWork_def nth_append in_body_def)
  with assms show ?thesis
    by (auto simp: kill_ok_def addWorkerWithWork_def)
qed

lemma kill_caller:
  assumes "caller_step V k s = Some s'" "kill_ok s" "counters_ok s"
  shows "kill_ok s'"
  using assms
proof (cases rule: caller_cases)
  case (EnqSpawn w)
  then show ?thesis
    using kill_spawn [OF assms(2), of w] by (simp add: kill_ok_def addWorkerWithWork_def)
next
  case (Notify w)
  then show ?thesis
    using kill_wake [OF assms(2), of k] by (simp add: kill_ok_def goto_def upd_def)
next
  case KillNotify
  then show ?thesis
    using kill_notify_all [OF assms(2)] assms(2) by (simp add: kill_ok_def notify_all_def)
next
  case (EnqPush w)
  have "kill_ok (s\<lparr>qWork := qWork s @ [w], caller := EnqNotify w\<rparr>)"
    using assms(2) by (simp add: kill_ok_def)
  from kill_event [OF this, of "Pushed w"] EnqPush show ?thesis
    by (simp add: loop_event_def)
next
  case Return
  then show ?thesis
    using kill_return [OF assms(2,3)] by simp
qed (use assms(2) in \<open>simp_all add: kill_ok_def\<close>)

lemma kill_step:
  assumes "kill_ok s \<and> counters_ok s" "step V a s = Some s'"
  shows "kill_ok s' \<and> counters_ok s'"
proof
  show "counters_ok s'"
    using counters_step assms by blast
  from assms(2) show "kill_ok s'"
  proof (cases rule: step_cases)
    case (Caller k)
    then show ?thesis using kill_caller assms(1) by blast
  next
    case (Thread t)
    then show ?thesis using kill_thread assms(1) by blast
  next
    case (Spurious t)
    then show ?thesis using kill_wake assms(1) by blast
  qed (use assms(1) in \<open>simp_all add: kill_ok_def\<close>)
qed

lemma kill_init: "kill_ok (DynamicProcessPool n m l x)"
  unfolding DynamicProcessPool_def
  by (rule fold_addWorker
        [where P = "\<lambda>s. kill_ok s \<and> history s = [] \<and> caller s = Idle", THEN conjunct1])
     (simp_all add: kill_ok_def addWorker_def after_kill_def)

lemma kill_reachable:
  fixes s :: "('w, 'x) pool"
  assumes "exec V as (DynamicProcessPool n m l x) = Some s"
  shows "kill_ok s"
proof (rule exec_invariant
    [where P = "\<lambda>s :: ('w, 'x) pool. kill_ok s \<and> counters_ok s", OF _ _ assms,
      THEN conjunct1])
  show "kill_ok (DynamicProcessPool n m l x :: ('w, 'x) pool)
      \<and> counters_ok (DynamicProcessPool n m l x :: ('w, 'x) pool)"
    by (intro conjI kill_init counters_init)
next
  fix a and s s' :: "('w, 'x) pool"
  assume "kill_ok s \<and> counters_ok s" "step V a s = Some s'"
  then show "kill_ok s' \<and> counters_ok s'"
    by (rule kill_step)
qed

lemma caller_queue:
  assumes "caller_step V k s = Some s'"
  shows "\<exists>r. qWork s' = qWork s @ r"
  using assms
  by (cases rule: caller_cases)
     (simp_all add: addWorkerWithWork_def observe_def goto_def upd_def notify_all_def)

lemma step_queue_after_kill:
  assumes "step V a s = Some s'" "kill_ok s" "KillReturned \<in> set (history s)"
  shows "\<exists>r. qWork s' = qWork s @ r"
  using assms(1)
proof (cases rule: step_cases)
  case (Caller k)
  then show ?thesis using caller_queue by blast
next
  case (Thread t)
  from assms(2,3) Thread(2) have "quit s" "\<not> in_body (pc (threads s ! t))"
    by (simp_all add: kill_ok_def)
  from thread_after_quit(3) [OF Thread(3) this Thread(2)] show ?thesis
    by simp
qed (simp_all add: goto_def upd_def)

lemma kill_return_step:
  assumes "kill_ok s" "counters_ok s" "caller s = KillSpin" "step V (Caller k) s = Some s'"
    "caller s' = Idle"
  shows "nWorker s' = 0 \<and> quit s' \<and> history s' = history s @ [KillReturned]
       \<and> (\<forall>w \<in> set (threads s'). \<not> counted w)"
proof -
  from assms(4) have st: "caller_step V k s = Some s'"
    by (simp add: step_def)
  from st have "nWorker s \<le> 0 \<and> s' = observe KillReturned (s\<lparr>caller := Idle\<rparr>)"
  proof (cases rule: caller_cases)
    case Spin
    from Spin(3) assms(3) have "caller s' = KillSpin"
      by simp
    with assms(5) show ?thesis
      by simp
  next
    case Return
    then show ?thesis
      by simp
  qed (use assms(3) in simp_all)
  then have le: "nWorker s \<le> 0"
    and s': "s' = observe KillReturned (s\<lparr>caller := Idle\<rparr>)"
    by simp_all
  from assms(2) have "0 \<le> nWorker s"
    by (simp add: counters_ok_def tally_nonneg)
  with le have 1: "nWorker s' = 0"
    by (simp add: s' observe_def)
  from assms(1,3) have 2: "quit s'"
    by (simp add: kill_ok_def s' observe_def)
  have 3: "history s' = history s @ [KillReturned]"
    by (simp add: s' observe_def)
  from assms(2) le have z: "tally counted (threads s) \<le> 0"
    by (simp add: counters_ok_def)
  have "\<forall>w \<in> set (threads s). \<not> counted w"
  proof
    fix w assume "w \<in> set (threads s)"
    from tally_zero [OF z this] show "\<not> counted w" .
  qed
  then have 4: "\<forall>w \<in> set (threads s'). \<not> counted w"
    by (simp add: s' observe_def)
  from 1 2 3 4 show ?thesis
    by blast
qed

lemma after_return:
  assumes "kill_ok s" "KillReturned \<in> set (history s)"
  shows "quit s \<and> (\<forall>w \<in> set (threads s). \<not> in_body (pc w))
       \<and> (\<forall>a s'. step V a s = Some s' \<longrightarrow> (\<exists>r. qWork s' = qWork s @ r))"
proof (intro conjI allI impI ballI)
  from assms show "quit s"
    by (simp add: kill_ok_def)
next
  fix w assume "w \<in> set (threads s)"
  then obtain t where "t < length (threads s)" "w = threads s ! t"
    by (metis in_set_conv_nth)
  with assms show "\<not> in_body (pc w)"
    by (simp add: kill_ok_def)
next
  fix a s' assume "step V a s = Some s'"
  from step_queue_after_kill [OF this assms] show "\<exists>r. qWork s' = qWork s @ r" .
qed

subsection \<open>The returned value\<close>

lemma shape_eq: "shape s1 = shape s2 \<Longrightarrow> s2 = s1\<lparr>ext := ext s2\<rparr>"
  by (cases s1, cases s2) (simp add: shape_def)

lemma workthread_shape:
  "map_option shape (workthread (fire_and_forget h1) t s)
   = map_option shape (workthread (fire_and_forget h2) t (s\<lparr>ext := e\<rparr>))"
  by (cases "pc (threads s ! t)")
     (simp_all add: workthread_def Let_def fire_and_forget_def goto_def upd_def observe_def
        shape_def split: option.splits list.splits)

lemma caller_shape:
  "map_option shape (caller_step (fire_and_forget h1) k s)
   = map_option shape (caller_step (fire_and_forget h2) k (s\<lparr>ext := e\<rparr>))"
  by (cases "caller s")
     (simp_all add: caller_step_def fire_and_forget_def addWorkerWithWork_def observe_def
        notify_one_def notify_all_def blocked_def goto_def upd_def shape_def
        option.map_comp comp_def)

lemma step_shape:
  "map_option shape (step (fire_and_forget h1) a s)
   = map_option shape (step (fire_and_forget h2) a (s\<lparr>ext := e\<rparr>))"
proof (cases a)
  case (Enqueue x)
  then show ?thesis
    by (simp add: step_def fire_and_forget_def shape_def)
next
  case Kill
  then show ?thesis
    by (simp add: step_def shape_def)
next
  case (Caller k)
  then show ?thesis
    using caller_shape [of h1 k s h2 e] by (simp add: step_def)
next
  case (Thread t)
  then show ?thesis
    using workthread_shape [of h1 t s h2 e] by (simp add: step_def)
next
  case (Spurious t)
  then show ?thesis
    by (simp add: step_def blocked_def goto_def upd_def shape_def)
qed

lemma exec_shape:
  "shape s1 = shape s2 \<Longrightarrow>
   map_option shape (exec (fire_and_forget h1) as s1)
   = map_option shape (exec (fire_and_forget h2) as s2)"
proof (induction as arbitrary: s1 s2)
  case Nil
  then show ?case by simp
next
  case (Cons a as)
  from shape_eq [OF Cons.prems] have s2: "s2 = s1\<lparr>ext := ext s2\<rparr>" .
  have st: "map_option shape (step (fire_and_forget h1) a s1)
      = map_option shape (step (fire_and_forget h2) a s2)"
    using step_shape [of h1 a s1 h2 "ext s2"] s2 by simp
  show ?case
  proof (cases "step (fire_and_forget h1) a s1")
    case None
    with st have "step (fire_and_forget h2) a s2 = None"
      by simp
    with None show ?thesis by simp
  next
    case (Some r1)
    with st obtain r2 where r2: "step (fire_and_forget h2) a s2 = Some r2"
      "shape r1 = shape r2"
      by (cases "step (fire_and_forget h2) a s2") auto
    from Cons.IH [OF r2(2)] Some r2(1) show ?thesis
      by simp
  qed
qed

lemma enqueue_decision:
  assumes "caller s = EnqWorker w"
  shows "exec V [Caller k, Caller k'] s =
     (if maxWorker s < nWorker s \<and> nWaiting s = 0
      then Some (s\<lparr>caller := EnqSpawn w\<rparr>)
      else if maxWorker s < nWorker s
        then Some (s\<lparr>caller := EnqPush w\<rparr>)
        else if queueMutex s = None
          then Some (observe (Pushed w) (s\<lparr>qWork := qWork s @ [w], caller := EnqNotify w\<rparr>))
          else None)"
  using assms by (simp add: step_def caller_step_def observe_def)

section \<open>The claims\<close>

text \<open>
  C6. In every state the pool reaches from its constructor, under any schedule and in
  both headers, \<^verbatim>\<open>nWaiting + nWorking \<le> nWorker\<close>: each counter is the number of threads
  standing between its increment and its decrement (\<open>counters_ok\<close>), a thread is never
  waiting and working at once, and it is counted in \<^verbatim>\<open>nWorker\<close> whenever it is waiting
  or working.
\<close>

theorem counter_invariant:
  assumes "exec V as (DynamicProcessPool n m l x) = Some s"
  shows "nWaiting s + nWorking s \<le> nWorker s
       \<and> nWorker s = tally counted (threads s)
       \<and> nWaiting s = tally waiting_now (threads s)
       \<and> nWorking s = tally working_now (threads s)"
  using counters_reachable [OF assms] counters_sum [of s]
  by (simp add: counters_ok_def)

text \<open>
  A pool of two workers, one of them blocked in \<^verbatim>\<open>signal.wait\<close>, the other inside the
  handler.
\<close>

theorem counter_invariant_witness:
  "(case exec (fire_and_forget (\<lambda>x::nat. True))
      [Enqueue 7, Caller 0, Caller 0, Caller 0,
       Thread 0, Thread 0, Thread 0, Thread 0, Thread 0, Thread 0, Thread 0,
       Thread 1, Thread 1, Thread 1, Thread 1, Thread 1, Thread 1]
      (DynamicProcessPool 2 4 3 Map.empty) of
      None \<Rightarrow> False
    | Some s \<Rightarrow> nWaiting s + nWorking s \<le> nWorker s
        \<and> nWaiting s = 1 \<and> nWorking s = 1 \<and> nWorker s = 2)"
proof -
  have "map_option (\<lambda>s. (nWaiting s, nWorking s, nWorker s))
      (exec (fire_and_forget (\<lambda>x::nat. True))
        [Enqueue 7, Caller 0, Caller 0, Caller 0,
         Thread 0, Thread 0, Thread 0, Thread 0, Thread 0, Thread 0, Thread 0,
         Thread 1, Thread 1, Thread 1, Thread 1, Thread 1, Thread 1]
        (DynamicProcessPool 2 4 3 Map.empty)) = Some (1, 1, 2)"
    by code_simp
  then obtain s where run:
    "exec (fire_and_forget (\<lambda>x::nat. True))
      [Enqueue 7, Caller 0, Caller 0, Caller 0,
       Thread 0, Thread 0, Thread 0, Thread 0, Thread 0, Thread 0, Thread 0,
       Thread 1, Thread 1, Thread 1, Thread 1, Thread 1, Thread 1]
      (DynamicProcessPool 2 4 3 Map.empty) = Some s"
    and now: "nWaiting s = 1" "nWorking s = 1" "nWorker s = 2"
    by auto
  show ?thesis
    unfolding run using counter_invariant [OF run] now by simp
qed

text \<open>
  C9. \<^verbatim>\<open>queryPoolStatus\<close> leaves the pool as it was. In the caller's memory it writes
  nothing but the cells its two arguments point to: \<^verbatim>\<open>nWorking\<close> where \<open>working\<close>
  points, \<^verbatim>\<open>nWaiting\<close> where \<open>waiting\<close> points (unless \<open>working\<close> points to the same
  cell, which is written second), and nothing at all for a null argument.
\<close>

theorem queryPoolStatus_frame:
  "fst (queryPoolStatus waiting working (s, mem)) = s
   \<and> (\<forall>a. waiting \<noteq> Some a \<and> working \<noteq> Some a \<longrightarrow>
          snd (queryPoolStatus waiting working (s, mem)) a = mem a)
   \<and> (\<forall>a. waiting = Some a \<and> working \<noteq> Some a \<longrightarrow>
          snd (queryPoolStatus waiting working (s, mem)) a = nWaiting s)
   \<and> (\<forall>a. working = Some a \<longrightarrow>
          snd (queryPoolStatus waiting working (s, mem)) a = nWorking s)
   \<and> queryPoolStatus None None (s, mem) = (s, mem)"
  by (auto simp: queryPoolStatus_def split: option.splits)

text \<open>
  The status of a pool with one blocked worker, read into the cells 5 and 6 of a
  zeroed memory; then with a null second argument.
\<close>

theorem queryPoolStatus_frame_witness:
  "(case exec (fire_and_forget (\<lambda>x::nat. True))
      [Thread 0, Thread 0, Thread 0, Thread 0, Thread 0, Thread 0]
      (DynamicProcessPool 1 4 3 Map.empty) of
      None \<Rightarrow> False
    | Some s \<Rightarrow>
        fst (queryPoolStatus (Some 5) (Some 6) (s, \<lambda>a. 0)) = s
        \<and> snd (queryPoolStatus (Some 5) (Some 6) (s, \<lambda>a. 0)) 5 = 1
        \<and> snd (queryPoolStatus (Some 5) (Some 6) (s, \<lambda>a. 0)) 6 = 0
        \<and> snd (queryPoolStatus (Some 5) (Some 6) (s, \<lambda>a. 0)) 7 = 0
        \<and> snd (queryPoolStatus (Some 5) None (s, \<lambda>a. 0)) 6 = 0)"
proof -
  have "map_option (\<lambda>s. (nWaiting s, nWorking s))
      (exec (fire_and_forget (\<lambda>x::nat. True))
        [Thread 0, Thread 0, Thread 0, Thread 0, Thread 0, Thread 0]
        (DynamicProcessPool 1 4 3 Map.empty)) = Some (1, 0)"
    by code_simp
  then obtain s where run:
    "exec (fire_and_forget (\<lambda>x::nat. True))
      [Thread 0, Thread 0, Thread 0, Thread 0, Thread 0, Thread 0]
      (DynamicProcessPool 1 4 3 Map.empty) = Some s"
    and now: "nWaiting s = 1" "nWorking s = 0"
    by auto
  show ?thesis
    unfolding run
    using queryPoolStatus_frame [of "Some 5" "Some 6" s "\<lambda>a. 0"]
      queryPoolStatus_frame [of "Some 5" None s "\<lambda>a. 0"] now
    by simp
qed

text \<open>
  C5 (as amended). A thread that has left the loop of \<^verbatim>\<open>workthread\<close> (it is about to
  decrement \<^verbatim>\<open>nWorker\<close>, or has returned) was created with the budget
  \<^verbatim>\<open>lifeTime\<close> by \<^verbatim>\<open>addWorker\<close> or with the budget 10 by \<^verbatim>\<open>addWorkerWithWork\<close>.
  Inside the loop it has invoked the handler exactly \<open>max 0 budget\<close> times, or not
  more than that when \<^verbatim>\<open>quit\<close> is set. A thread of \<^verbatim>\<open>addWorkerWithWork\<close> has
  invoked the handler once more, on its captured item, before it entered the loop.
\<close>

theorem life_bounded_retirement:
  assumes "exec V as (DynamicProcessPool n m l x) = Some s"
    and "t < length (threads s)"
    and "pc (threads s ! t) = Retire \<or> pc (threads s ! t) = Done"
  shows "budget (threads s ! t) = (if captured (threads s ! t) = None then l else 10)
       \<and> direct_calls t s = (if captured (threads s ! t) = None then 0 else 1)
       \<and> (loop_calls t s = max 0 (budget (threads s ! t))
          \<or> quit s \<and> loop_calls t s \<le> max 0 (budget (threads s ! t)))"
proof -
  from life_reachable [OF assms(1)] assms(2)
  have ok: "life_ok_thread (quit s) (lifeTime s) (history s) t (threads s ! t)"
    by (simp add: life_ok_def)
  have l: "lifeTime s = l"
    using config_reachable [OF assms(1)] by simp
  have nn: "0 \<le> loop_calls t s"
    by (simp add: loop_calls_def tally_nonneg)
  from ok assms(3) l nn show ?thesis
    unfolding life_ok_thread_def loop_calls_def direct_calls_def served_def
    by (auto split: if_splits)
qed

text \<open>A pool of one worker with life time 1: the worker serves one item and retires.\<close>

theorem life_bounded_retirement_witness:
  "(case exec (fire_and_forget (\<lambda>x::nat. True))
      [Enqueue 7, Caller 0, Caller 0, Caller 0, Caller 0,
       Thread 0, Thread 0, Thread 0, Thread 0, Thread 0, Thread 0,
       Thread 0, Thread 0, Thread 0, Thread 0, Thread 0]
      (DynamicProcessPool 1 4 1 Map.empty) of
      None \<Rightarrow> False
    | Some s \<Rightarrow> pc (threads s ! 0) = Done \<and> \<not> quit s
        \<and> budget (threads s ! 0) = 1 \<and> direct_calls 0 s = 0 \<and> loop_calls 0 s = 1)"
proof -
  have "map_option (\<lambda>s. (length (threads s), pc (threads s ! 0), quit s,
        captured (threads s ! 0)))
      (exec (fire_and_forget (\<lambda>x::nat. True))
        [Enqueue 7, Caller 0, Caller 0, Caller 0, Caller 0,
         Thread 0, Thread 0, Thread 0, Thread 0, Thread 0, Thread 0,
         Thread 0, Thread 0, Thread 0, Thread 0, Thread 0]
        (DynamicProcessPool 1 4 1 Map.empty)) = Some (1, Done, False, None)"
    by code_simp
  then obtain s where run:
    "exec (fire_and_forget (\<lambda>x::nat. True))
      [Enqueue 7, Caller 0, Caller 0, Caller 0, Caller 0,
       Thread 0, Thread 0, Thread 0, Thread 0, Thread 0, Thread 0,
       Thread 0, Thread 0, Thread 0, Thread 0, Thread 0]
      (DynamicProcessPool 1 4 1 Map.empty) = Some s"
    and now: "length (threads s) = 1" "pc (threads s ! 0) = Done" "\<not> quit s"
      "captured (threads s ! 0) = None"
    by auto
  show ?thesis
    unfolding run using life_bounded_retirement [OF run, of 0] now by simp
qed

text \<open>
  C5 as stated fails for a thread of \<^verbatim>\<open>addWorkerWithWork\<close>: with ten items queued
  while no worker is counted, then one more submitted while one worker is counted above
  \<^verbatim>\<open>maxWorker = 0\<close>, the new thread calls the handler on its own item and then on the
  ten queued ones, eleven invocations on a budget of 10, and retires without
  \<^verbatim>\<open>quit\<close>.
\<close>

theorem overflow_worker_eleven_calls:
  "(case exec (fire_and_forget (\<lambda>x::nat. True))
      (concat (map (\<lambda>i. [Enqueue i, Caller 0, Caller 0, Caller 0, Caller 0]) [1 ..< 11])
       @ [Thread 0, Enqueue 99, Caller 0, Caller 0, Caller 0, Caller 0, Thread 1, Thread 1]
       @ concat (replicate 10 [Thread 1, Thread 1, Thread 1, Thread 1,
                               Thread 1, Thread 1, Thread 1, Thread 1])
       @ [Thread 1, Thread 1])
      (DynamicProcessPool 1 0 3 Map.empty) of
      None \<Rightarrow> False
    | Some s \<Rightarrow> pc (threads s ! 1) = Done \<and> \<not> quit s \<and> budget (threads s ! 1) = 10
        \<and> loop_calls 1 s + direct_calls 1 s = 11
        \<and> loop_calls 1 s + direct_calls 1 s \<noteq> budget (threads s ! 1))"
  by code_simp



text \<open>
  C7 (as amended). The items leave the queue in the order in which they were pushed:
  the pushed items are the popped items followed by the queue. Each thread hands the
  items it popped to the handler in the order in which it popped them, with at most the
  last one still in its hands. Nothing orders the handler invocations of different
  threads.
\<close>

theorem fifo_order:
  assumes "exec V as (DynamicProcessPool n m l x) = Some s"
  shows "pushed (history s) = popped (history s) @ qWork s
       \<and> (\<forall>t. \<exists>r. popped_by t (history s) = executed_by t (history s) @ r \<and> length r \<le> 1)"
proof (intro conjI allI)
  from fifo_reachable [OF assms] have ok: "fifo_ok s" .
  then show "pushed (history s) = popped (history s) @ qWork s"
    by (simp add: fifo_ok_def)
  fix t
  show "\<exists>r. popped_by t (history s) = executed_by t (history s) @ r \<and> length r \<le> 1"
  proof (cases "t < length (threads s)")
    case True
    with ok have "own_ok_thread (history s) t (threads s ! t)"
      by (simp add: fifo_ok_def)
    then have "popped_by t (history s) = executed_by t (history s) @ []
        \<or> (\<exists>x. popped_by t (history s) = executed_by t (history s) @ [x])"
      by (auto simp: own_ok_thread_def split: if_splits)
    then show ?thesis
      by (metis One_nat_def le_numeral_extra(4) length_Cons list.size(3) zero_le)
  next
    case False
    with ok have "\<forall>e \<in> set (history s). \<not> by_thread t e"
      by (simp add: fifo_ok_def)
    from items_foreign [OF this] show ?thesis
      by simp
  qed
qed

text \<open>
  Two items pushed, the first popped and handed to the handler by the only worker.
\<close>

theorem fifo_order_witness:
  "(case exec (fire_and_forget (\<lambda>x::nat. True))
      [Enqueue 1, Caller 0, Caller 0, Caller 0, Caller 0,
       Enqueue 2, Caller 0, Caller 0, Caller 0, Caller 0,
       Thread 0, Thread 0, Thread 0, Thread 0, Thread 0, Thread 0, Thread 0]
      (DynamicProcessPool 1 4 3 Map.empty) of
      None \<Rightarrow> False
    | Some s \<Rightarrow> pushed (history s) = popped (history s) @ qWork s
        \<and> pushed (history s) = [1, 2] \<and> qWork s = [2]
        \<and> (\<exists>r. popped_by 0 (history s) = executed_by 0 (history s) @ r \<and> length r \<le> 1))"
proof -
  have "map_option (\<lambda>s. (pushed (history s), qWork s))
      (exec (fire_and_forget (\<lambda>x::nat. True))
        [Enqueue 1, Caller 0, Caller 0, Caller 0, Caller 0,
         Enqueue 2, Caller 0, Caller 0, Caller 0, Caller 0,
         Thread 0, Thread 0, Thread 0, Thread 0, Thread 0, Thread 0, Thread 0]
        (DynamicProcessPool 1 4 3 Map.empty)) = Some ([1, 2], [2])"
    by code_simp
  then obtain s where run:
    "exec (fire_and_forget (\<lambda>x::nat. True))
      [Enqueue 1, Caller 0, Caller 0, Caller 0, Caller 0,
       Enqueue 2, Caller 0, Caller 0, Caller 0, Caller 0,
       Thread 0, Thread 0, Thread 0, Thread 0, Thread 0, Thread 0, Thread 0]
      (DynamicProcessPool 1 4 3 Map.empty) = Some s"
    and now: "pushed (history s) = [1, 2]" "qWork s = [2]"
    by auto
  show ?thesis
    unfolding run using fifo_order [OF run] now by simp
qed

text \<open>
  C7 as stated fails with two workers and no thread of \<^verbatim>\<open>addWorkerWithWork\<close>: both
  items go through the queue and are popped in the order of submission, the second
  is handed to the handler first.
\<close>

theorem queued_items_executed_out_of_order:
  "(case exec (fire_and_forget (\<lambda>x::nat. True))
      [Enqueue 1, Caller 0, Caller 0, Caller 0, Caller 0,
       Enqueue 2, Caller 0, Caller 0, Caller 0, Caller 0,
       Thread 0, Thread 0, Thread 0, Thread 0, Thread 0,
       Thread 1, Thread 1, Thread 1, Thread 1, Thread 1, Thread 1, Thread 1,
       Thread 0, Thread 0]
      (DynamicProcessPool 2 4 3 Map.empty) of
      None \<Rightarrow> False
    | Some s \<Rightarrow> pushed (history s) = [1, 2] \<and> popped (history s) = [1, 2]
        \<and> executed (history s) = [2, 1] \<and> length (threads s) = 2)"
  by code_simp

text \<open>
  C3, the code at two failing inputs. \<^verbatim>\<open>kill()\<close> returns as soon as it reads
  \<^verbatim>\<open>nWorker\<close> at zero, and a thread counts itself in \<^verbatim>\<open>nWorker\<close> only when it starts
  \<^verbatim>\<open>workthread\<close>. First run: a pool of one worker is killed before the worker has run;
  \<^verbatim>\<open>kill()\<close> returns at once with the created thread still ahead of its
  \<^verbatim>\<open>nWorker.fetch_add\<close>, and the next step of that thread brings the counter to 1
  after the return. Second run (\<^verbatim>\<open>maxWorker = 0\<close>): the item 9 is handed to
  \<^verbatim>\<open>addWorkerWithWork\<close>, the worker retires, \<^verbatim>\<open>kill()\<close> returns, and then the new
  thread invokes the handler on 9, since its lambda calls the handler before
  \<^verbatim>\<open>workthread\<close> counts it.
\<close>

theorem kill_misses_unregistered_threads:
  "(case exec (fire_and_forget (\<lambda>x::nat. True))
      [Kill, Caller 0, Caller 0, Caller 0, Caller 0]
      (DynamicProcessPool 1 4 3 Map.empty) of
      None \<Rightarrow> False
    | Some s \<Rightarrow> history s = [KillReturned] \<and> caller s = Idle \<and> nWorker s = 0
        \<and> map pc (threads s) = [Start])
 \<and> (case exec (fire_and_forget (\<lambda>x::nat. True))
      [Kill, Caller 0, Caller 0, Caller 0, Caller 0, Thread 0]
      (DynamicProcessPool 1 4 3 Map.empty) of
      None \<Rightarrow> False
    | Some s \<Rightarrow> history s = [KillReturned] \<and> caller s = Idle \<and> nWorker s = 1)
 \<and> (case exec (fire_and_forget (\<lambda>x::nat. True))
      [Enqueue 7, Caller 0, Caller 0, Caller 0, Caller 0,
       Thread 0, Thread 0, Thread 0, Thread 0, Thread 0, Thread 0, Thread 0,
       Enqueue 9, Caller 0, Caller 0, Caller 0, Caller 0,
       Thread 0, Thread 0, Thread 0, Thread 0,
       Kill, Caller 0, Caller 0, Caller 0, Caller 0,
       Thread 1]
      (DynamicProcessPool 1 0 1 Map.empty) of
      None \<Rightarrow> False
    | Some s \<Rightarrow> caller s = Idle
        \<and> history s = [Pushed 7, Popped 0 7, Invoked 0 7, KillReturned, DirectInvoked 1 9])"
  by code_simp

text \<open>
  What \<^verbatim>\<open>kill()\<close> does achieve, in every run of both headers. The step by which it
  returns finds \<^verbatim>\<open>nWorker\<close> at zero, with \<^verbatim>\<open>quit\<close> set and no thread between its
  \<^verbatim>\<open>nWorker.fetch_add\<close> and its \<^verbatim>\<open>nWorker.fetch_sub\<close>. Once it has returned,
  \<^verbatim>\<open>quit\<close> stays set, no thread is inside the body of the loop of \<^verbatim>\<open>workthread\<close>, no
  step removes an item from the queue, and the history holds no pop and no handler
  invocation of the loop after the return: the items in the queue when \<^verbatim>\<open>kill()\<close>
  returns are never executed.
\<close>

theorem after_kill_returns:
  assumes "exec V as (DynamicProcessPool n m l x) = Some s"
  shows "(\<forall>e \<in> set (after_kill (history s)). \<not> loop_event e)
       \<and> (KillReturned \<in> set (history s) \<longrightarrow>
            quit s \<and> (\<forall>w \<in> set (threads s). \<not> in_body (pc w))
            \<and> (\<forall>a s'. step V a s = Some s' \<longrightarrow> (\<exists>r. qWork s' = qWork s @ r)))
       \<and> (\<forall>k s'. caller s = KillSpin \<and> step V (Caller k) s = Some s' \<and> caller s' = Idle \<longrightarrow>
            nWorker s' = 0 \<and> quit s' \<and> history s' = history s @ [KillReturned]
            \<and> (\<forall>w \<in> set (threads s'). \<not> counted w))"
proof -
  from kill_reachable [OF assms] have ok: "kill_ok s" .
  from counters_reachable [OF assms] have cnt: "counters_ok s" .
  from ok have 1: "\<forall>e \<in> set (after_kill (history s)). \<not> loop_event e"
    by (simp add: kill_ok_def)
  have 2: "KillReturned \<in> set (history s) \<longrightarrow>
            quit s \<and> (\<forall>w \<in> set (threads s). \<not> in_body (pc w))
            \<and> (\<forall>a s'. step V a s = Some s' \<longrightarrow> (\<exists>r. qWork s' = qWork s @ r))"
    using after_return [OF ok] by (rule impI)
  have 3: "\<forall>k s'. caller s = KillSpin \<and> step V (Caller k) s = Some s' \<and> caller s' = Idle \<longrightarrow>
            nWorker s' = 0 \<and> quit s' \<and> history s' = history s @ [KillReturned]
            \<and> (\<forall>w \<in> set (threads s'). \<not> counted w)"
  proof (intro allI impI)
    fix k s'
    assume "caller s = KillSpin \<and> step V (Caller k) s = Some s' \<and> caller s' = Idle"
    then show "nWorker s' = 0 \<and> quit s' \<and> history s' = history s @ [KillReturned]
            \<and> (\<forall>w \<in> set (threads s'). \<not> counted w)"
      using kill_return_step [OF ok cnt] by blast
  qed
  from 1 2 3 show ?thesis
    by (intro conjI)
qed

text \<open>
  Two items queued, one worker. The worker is inside the handler on the first item
  when \<^verbatim>\<open>kill()\<close> is called; it retires, \<^verbatim>\<open>kill()\<close> returns, and the second item
  stays in the queue.
\<close>

theorem after_kill_returns_witness:
  "(case exec (fire_and_forget (\<lambda>x::nat. True))
      [Enqueue 7, Caller 0, Caller 0, Caller 0, Caller 0,
       Enqueue 8, Caller 0, Caller 0, Caller 0, Caller 0,
       Thread 0, Thread 0, Thread 0, Thread 0, Thread 0, Thread 0, Thread 0,
       Kill, Caller 0, Caller 0, Caller 0, Caller 0,
       Thread 0, Thread 0, Thread 0, Thread 0]
      (DynamicProcessPool 1 4 3 Map.empty) of
      None \<Rightarrow> False
    | Some s \<Rightarrow>
        (case step (fire_and_forget (\<lambda>x::nat. True)) (Caller 0) s of
           None \<Rightarrow> False
         | Some s' \<Rightarrow> caller s = KillSpin \<and> caller s' = Idle \<and> nWorker s' = 0 \<and> quit s'
             \<and> history s' = history s @ [KillReturned]
             \<and> list_all (\<lambda>w. \<not> counted w) (threads s')))
 \<and> (case exec (fire_and_forget (\<lambda>x::nat. True))
      [Enqueue 7, Caller 0, Caller 0, Caller 0, Caller 0,
       Enqueue 8, Caller 0, Caller 0, Caller 0, Caller 0,
       Thread 0, Thread 0, Thread 0, Thread 0, Thread 0, Thread 0, Thread 0,
       Kill, Caller 0, Caller 0, Caller 0, Caller 0,
       Thread 0, Thread 0, Thread 0, Thread 0, Caller 0]
      (DynamicProcessPool 1 4 3 Map.empty) of
      None \<Rightarrow> False
    | Some s \<Rightarrow> after_kill (history s) = [KillReturned] \<and> qWork s = [8] \<and> quit s
        \<and> list_all (\<lambda>e. \<not> loop_event e) (after_kill (history s))
        \<and> list_all (\<lambda>w. \<not> in_body (pc w)) (threads s)
        \<and> (case step (fire_and_forget (\<lambda>x::nat. True)) (Enqueue 9) s of
              None \<Rightarrow> False
            | Some s' \<Rightarrow> \<exists>r. qWork s' = qWork s @ r))"
proof -
  have "map_option (\<lambda>s. (caller s,
        map_option caller (step (fire_and_forget (\<lambda>x::nat. True)) (Caller 0) s)))
      (exec (fire_and_forget (\<lambda>x::nat. True))
        [Enqueue 7, Caller 0, Caller 0, Caller 0, Caller 0,
         Enqueue 8, Caller 0, Caller 0, Caller 0, Caller 0,
         Thread 0, Thread 0, Thread 0, Thread 0, Thread 0, Thread 0, Thread 0,
         Kill, Caller 0, Caller 0, Caller 0, Caller 0,
         Thread 0, Thread 0, Thread 0, Thread 0]
        (DynamicProcessPool 1 4 3 Map.empty)) = Some (KillSpin, Some Idle)"
    by code_simp
  then obtain s s' where run:
    "exec (fire_and_forget (\<lambda>x::nat. True))
      [Enqueue 7, Caller 0, Caller 0, Caller 0, Caller 0,
       Enqueue 8, Caller 0, Caller 0, Caller 0, Caller 0,
       Thread 0, Thread 0, Thread 0, Thread 0, Thread 0, Thread 0, Thread 0,
       Kill, Caller 0, Caller 0, Caller 0, Caller 0,
       Thread 0, Thread 0, Thread 0, Thread 0]
      (DynamicProcessPool 1 4 3 Map.empty) = Some s"
    and st: "step (fire_and_forget (\<lambda>x::nat. True)) (Caller 0) s = Some s'"
    and now: "caller s = KillSpin" "caller s' = Idle"
    by auto
  have "caller s = KillSpin \<and> step (fire_and_forget (\<lambda>x::nat. True)) (Caller 0) s = Some s'
      \<and> caller s' = Idle"
    using st now by simp
  from after_kill_returns [OF run, THEN conjunct2, THEN conjunct2, rule_format, OF this]
  have first: "caller s = KillSpin \<and> caller s' = Idle \<and> nWorker s' = 0 \<and> quit s'
      \<and> history s' = history s @ [KillReturned]
      \<and> list_all (\<lambda>w. \<not> counted w) (threads s')"
    using now by (simp add: list_all_iff)
  have "map_option (\<lambda>s. (after_kill (history s), qWork s,
        map_option (\<lambda>s'. ()) (step (fire_and_forget (\<lambda>x::nat. True)) (Enqueue 9) s)))
      (exec (fire_and_forget (\<lambda>x::nat. True))
        [Enqueue 7, Caller 0, Caller 0, Caller 0, Caller 0,
         Enqueue 8, Caller 0, Caller 0, Caller 0, Caller 0,
         Thread 0, Thread 0, Thread 0, Thread 0, Thread 0, Thread 0, Thread 0,
         Kill, Caller 0, Caller 0, Caller 0, Caller 0,
         Thread 0, Thread 0, Thread 0, Thread 0, Caller 0]
        (DynamicProcessPool 1 4 3 Map.empty)) = Some ([KillReturned], [8], Some ())"
    by code_simp
  then obtain r r' where run2:
    "exec (fire_and_forget (\<lambda>x::nat. True))
      [Enqueue 7, Caller 0, Caller 0, Caller 0, Caller 0,
       Enqueue 8, Caller 0, Caller 0, Caller 0, Caller 0,
       Thread 0, Thread 0, Thread 0, Thread 0, Thread 0, Thread 0, Thread 0,
       Kill, Caller 0, Caller 0, Caller 0, Caller 0,
       Thread 0, Thread 0, Thread 0, Thread 0, Caller 0]
      (DynamicProcessPool 1 4 3 Map.empty) = Some r"
    and st2: "step (fire_and_forget (\<lambda>x::nat. True)) (Enqueue 9) r = Some r'"
    and now2: "after_kill (history r) = [KillReturned]" "qWork r = [8]"
    by auto
  have ret: "KillReturned \<in> set (history r)"
  proof (rule ccontr)
    assume "KillReturned \<notin> set (history r)"
    from after_kill_none [OF this] now2(1) show False by simp
  qed
  note k = after_kill_returns [OF run2]
  from k have a: "list_all (\<lambda>e. \<not> loop_event e) (after_kill (history r))"
    by (simp add: list_all_iff)
  from k ret have b: "quit r" "list_all (\<lambda>w. \<not> in_body (pc w)) (threads r)"
    by (simp_all add: list_all_iff)
  from k ret st2 have c: "\<exists>q. qWork r' = qWork r @ q"
    by blast
  show ?thesis
    unfolding run run2 using first st now2 a b c st2 by simp
qed

text \<open>
  An item that is in the queue when \<^verbatim>\<open>kill()\<close> sets \<^verbatim>\<open>quit\<close> can still be served
  before \<^verbatim>\<open>kill()\<close> returns, by a worker that has passed the loop test: the first run
  stops right after \<^verbatim>\<open>quit = true\<close>, with 7 in the queue; the second goes on until
  \<^verbatim>\<open>kill()\<close> has returned.
\<close>

theorem queued_item_served_during_kill:
  "(case exec (fire_and_forget (\<lambda>x::nat. True))
      [Enqueue 7, Caller 0, Caller 0, Caller 0, Caller 0,
       Thread 0, Thread 0, Kill, Caller 0]
      (DynamicProcessPool 1 4 3 Map.empty) of
      None \<Rightarrow> False
    | Some s \<Rightarrow> quit s \<and> caller s = KillNotify \<and> qWork s = [7]
        \<and> history s = [Pushed 7])
 \<and> (case exec (fire_and_forget (\<lambda>x::nat. True))
      [Enqueue 7, Caller 0, Caller 0, Caller 0, Caller 0,
       Thread 0, Thread 0, Kill, Caller 0,
       Thread 0, Thread 0, Thread 0, Thread 0, Thread 0,
       Thread 0, Thread 0, Thread 0, Thread 0,
       Caller 0, Caller 0, Caller 0]
      (DynamicProcessPool 1 4 3 Map.empty) of
      None \<Rightarrow> False
    | Some s \<Rightarrow> quit s \<and> caller s = Idle \<and> qWork s = [] \<and> nWorker s = 0
        \<and> history s = [Pushed 7, Popped 0 7, Invoked 0 7, KillReturned])"
  by code_simp

text \<open>
  C10. In \<^verbatim>\<open>DynamicProcessPool.h\<close> the value the handler returns goes into the local
  \<^verbatim>\<open>result\<close> and nowhere else: under any schedule and from any state, two handlers
  lead to the same pool (counters, queue, flags, threads with their life counts,
  caller, history) or both runs stop at the same step; the runs differ in the
  \<^verbatim>\<open>result\<close> locals only.
\<close>

theorem handler_result_unused:
  "map_option shape (exec (fire_and_forget h1) as s)
   = map_option shape (exec (fire_and_forget h2) as s)"
  by (rule exec_shape) simp

text \<open>
  A handler that returns true and one that returns false, one item served: the same
  pool, different \<^verbatim>\<open>result\<close>.
\<close>

theorem handler_result_unused_witness:
  "map_option shape (exec (fire_and_forget (\<lambda>x::nat. True))
      [Enqueue 7, Caller 0, Caller 0, Caller 0, Caller 0,
       Thread 0, Thread 0, Thread 0, Thread 0, Thread 0, Thread 0, Thread 0, Thread 0,
       Thread 0]
      (DynamicProcessPool 1 4 3 Map.empty))
   = map_option shape (exec (fire_and_forget (\<lambda>x::nat. False))
      [Enqueue 7, Caller 0, Caller 0, Caller 0, Caller 0,
       Thread 0, Thread 0, Thread 0, Thread 0, Thread 0, Thread 0, Thread 0, Thread 0,
       Thread 0]
      (DynamicProcessPool 1 4 3 Map.empty))
 \<and> map_option (\<lambda>s. (ext s (LoopResult 0), lifeCount (threads s ! 0)))
      (exec (fire_and_forget (\<lambda>x::nat. True))
        [Enqueue 7, Caller 0, Caller 0, Caller 0, Caller 0,
         Thread 0, Thread 0, Thread 0, Thread 0, Thread 0, Thread 0, Thread 0, Thread 0,
         Thread 0]
        (DynamicProcessPool 1 4 3 Map.empty)) = Some (Some True, 2)
 \<and> map_option (\<lambda>s. (ext s (LoopResult 0), lifeCount (threads s ! 0)))
      (exec (fire_and_forget (\<lambda>x::nat. False))
        [Enqueue 7, Caller 0, Caller 0, Caller 0, Caller 0,
         Thread 0, Thread 0, Thread 0, Thread 0, Thread 0, Thread 0, Thread 0, Thread 0,
         Thread 0]
        (DynamicProcessPool 1 4 3 Map.empty)) = Some (Some False, 2)"
proof (intro conjI)
  show "map_option shape (exec (fire_and_forget (\<lambda>x::nat. True))
      [Enqueue 7, Caller 0, Caller 0, Caller 0, Caller 0,
       Thread 0, Thread 0, Thread 0, Thread 0, Thread 0, Thread 0, Thread 0, Thread 0,
       Thread 0]
      (DynamicProcessPool 1 4 3 Map.empty))
   = map_option shape (exec (fire_and_forget (\<lambda>x::nat. False))
      [Enqueue 7, Caller 0, Caller 0, Caller 0, Caller 0,
       Thread 0, Thread 0, Thread 0, Thread 0, Thread 0, Thread 0, Thread 0, Thread 0,
       Thread 0]
      (DynamicProcessPool 1 4 3 Map.empty))"
    by (rule handler_result_unused)
qed code_simp+

text \<open>
  C1, the code at two inputs. One worker counted, none waiting, \<^verbatim>\<open>maxWorker = 4\<close>: the
  pool is below its ceiling and enqueue appends the item to the queue, no thread is
  created. The same with \<^verbatim>\<open>maxWorker = 0\<close>: the pool is above its ceiling and enqueue
  creates a thread for the item. The test \<^verbatim>\<open>maxWorker < nWorker.load()\<close> is the
  reverse of the comment above it and of the claim.
\<close>

theorem enqueue_test_inverted:
  "(case exec (fire_and_forget (\<lambda>x::nat. True))
      [Thread 0, Enqueue 7, Caller 0, Caller 0, Caller 0, Caller 0]
      (DynamicProcessPool 1 4 3 Map.empty) of
      None \<Rightarrow> False
    | Some s \<Rightarrow> nWorker s = 1 \<and> maxWorker s = 4 \<and> nWaiting s = 0
        \<and> qWork s = [7] \<and> length (threads s) = 1 \<and> caller s = Idle)
 \<and> (case exec (fire_and_forget (\<lambda>x::nat. True))
      [Thread 0, Enqueue 7, Caller 0, Caller 0, Caller 0, Caller 0]
      (DynamicProcessPool 1 0 3 Map.empty) of
      None \<Rightarrow> False
    | Some s \<Rightarrow> nWorker s = 1 \<and> maxWorker s = 0 \<and> nWaiting s = 0
        \<and> qWork s = [] \<and> length (threads s) = 2 \<and> caller s = Idle
        \<and> pc (threads s ! 1) = Direct \<and> captured (threads s ! 1) = Some 7)"
  by code_simp

text \<open>
  C4, the code at the failing input. A pool of one worker with life time 1 and
  \<^verbatim>\<open>maxWorker = 4\<close>: the worker serves the first item and retires, \<^verbatim>\<open>nWorker\<close> is
  zero and \<^verbatim>\<open>quit\<close> is not set. The next enqueue appends its item to the queue and
  creates no thread; the only thread has returned, so nothing will serve the item.
\<close>

theorem enqueue_after_all_retired:
  "(case exec (fire_and_forget (\<lambda>x::nat. True))
      [Enqueue 7, Caller 0, Caller 0, Caller 0, Caller 0,
       Thread 0, Thread 0, Thread 0, Thread 0, Thread 0, Thread 0,
       Thread 0, Thread 0, Thread 0, Thread 0, Thread 0,
       Enqueue 8, Caller 0, Caller 0, Caller 0, Caller 0]
      (DynamicProcessPool 1 4 1 Map.empty) of
      None \<Rightarrow> False
    | Some s \<Rightarrow> nWorker s = 0 \<and> maxWorker s = 4 \<and> \<not> quit s \<and> caller s = Idle
        \<and> qWork s = [8] \<and> length (threads s) = 1 \<and> pc (threads s ! 0) = Done
        \<and> map_option shape (step (fire_and_forget (\<lambda>x::nat. True)) (Thread 0) s) = None
        \<and> history s = [Pushed 7, Popped 0 7, Invoked 0 7, Pushed 8])"
  by code_simp

text \<open>
  C2, the code of \<^verbatim>\<open>tmp.h\<close> on both paths, handler \<open>x + 1\<close>, item 7. Through the
  queue, \<^verbatim>\<open>doWork\<close> sets the promise to 8 and deletes it. Handed to the lambda of
  \<^verbatim>\<open>addWorkerWithWork\<close> (one worker counted, \<^verbatim>\<open>maxWorker = 0\<close>), the handler is
  invoked on the item, and when every thread has returned and \<^verbatim>\<open>kill()\<close> has
  returned the promise is still without a value and has not been deleted.
\<close>

theorem overflow_promise_never_fulfilled:
  "(case exec (with_future (\<lambda>x::nat. x + 1))
      [Enqueue 7, Caller 0, Caller 0, Caller 0, Caller 0,
       Thread 0, Thread 0, Thread 0, Thread 0, Thread 0, Thread 0, Thread 0]
      (DynamicProcessPool 1 4 3 []) of
      None \<Rightarrow> False
    | Some s \<Rightarrow> ext s = [\<lparr>shared = Some 8, deleted = True\<rparr>]
        \<and> history s = [Pushed \<lparr>result = 0, item = 7\<rparr>, Popped 0 \<lparr>result = 0, item = 7\<rparr>,
                       Invoked 0 \<lparr>result = 0, item = 7\<rparr>])
 \<and> (case exec (with_future (\<lambda>x::nat. x + 1))
      [Thread 0, Enqueue 7, Caller 0, Caller 0, Caller 0, Caller 0,
       Thread 1, Thread 1, Thread 1, Thread 1, Thread 1, Thread 1, Thread 1,
       Kill, Caller 0, Caller 0, Caller 0,
       Thread 1, Thread 1, Thread 1, Thread 1, Thread 1,
       Thread 0, Thread 0, Caller 0]
      (DynamicProcessPool 1 0 3 []) of
      None \<Rightarrow> False
    | Some s \<Rightarrow> ext s = [\<lparr>shared = None, deleted = False\<rparr>]
        \<and> history s = [DirectInvoked 1 \<lparr>result = 0, item = 7\<rparr>, KillReturned]
        \<and> map pc (threads s) = [Done, Done] \<and> qWork s = [])"
  by code_simp

end
